theory Spec2Isabelle
  imports Complex_Main "HOL-Library.Multiset" "HOL-Library.AList"
begin

chapter \<open>The utilities of the tagger: data shaping, log-space arithmetic, scoring\<close>

text \<open>
  A shallow embedding of \<^verbatim>\<open>utils.py\<close>. Python lists are HOL lists, a two-dimensional
  numpy array of floats is a list of rows of reals (exact real arithmetic stands for the
  floating-point operations), dictionaries are association lists in insertion order or
  maps, and every exception the code can raise is a value \<open>Inl e\<close> of a sum type.
\<close>

section \<open>Exceptions\<close>

datatype py_error = IndexError | KeyError | TypeError | ValueError | ZeroDivisionError

section \<open>Log-space arithmetic\<close>

subsection \<open>logNormalize\<close>

text \<open>
  \<^verbatim>\<open>np.logaddexp(x, y)\<close> is \<open>log (exp x + exp y)\<close>. Its reduction along a row folds
  the row from the left, starting with the first entry; the reduction of a row with no
  entry is the operation's identity, minus infinity, which is \<open>None\<close> here.
\<close>

definition logaddexp :: "real \<Rightarrow> real \<Rightarrow> real" where
  "logaddexp x y = ln (exp x + exp y)"

fun logaddexp_reduce :: "real list \<Rightarrow> real option" where
  "logaddexp_reduce [] = None"
| "logaddexp_reduce (x # xs) = Some (foldl logaddexp x xs)"

text \<open>
  \<^verbatim>\<open>(a.transpose() - denom).transpose()\<close> subtracts from every entry of row \<open>i\<close> the
  \<open>i\<close>-th denominator. A denominator is minus infinity only for a row without entries,
  where there is nothing to subtract from.
\<close>

definition sub_denom :: "real list \<Rightarrow> real option \<Rightarrow> real list" where
  "sub_denom row d = (case d of None \<Rightarrow> [] | Some v \<Rightarrow> map (\<lambda>x. x - v) row)"

definition logNormalize :: "real list list \<Rightarrow> real list list" where
  "logNormalize a = (let denom = map logaddexp_reduce a in map2 sub_denom a denom)"

text \<open>The log-sum-exp of a row, as the specification names it.\<close>

definition log_sum_exp :: "real list \<Rightarrow> real" where
  "log_sum_exp row = ln (\<Sum>x\<leftarrow>row. exp x)"

section \<open>Length sort and filter\<close>

text \<open>
  \<^verbatim>\<open>sortbylength(data, lang_ids, maxlen)\<close>. The elements of \<open>data\<close> are pairs of a
  source sentence and its tags. Python's \<^verbatim>\<open>sorted\<close> is a stable sort by the key,
  here the negated length; \<open>sort_key\<close> is the stable insertion sort, and a stable sort
  has one result only. \<^verbatim>\<open>lang_ids[i]\<close> raises IndexError when the list is too short.
\<close>

definition sortbylength ::
  "('a list \<times> 'b) list \<Rightarrow> 'l list \<Rightarrow> int \<Rightarrow> py_error + (('a list \<times> 'b) list \<times> 'l list)" where
  "sortbylength data lang_ids maxlen =
    (let src = map fst data;
         tgt = map snd data;
         indexed_src = map (\<lambda>i. (i, src ! i)) [0..<length src];
         sorted_indexed_src = sort_key (\<lambda>x. - int (length (snd x))) indexed_src;
         sorted_src = map snd (filter (\<lambda>item. int (length (snd item)) < maxlen) sorted_indexed_src);
         sort_order = map fst (filter (\<lambda>item. int (length (snd item)) < maxlen) sorted_indexed_src);
         sorted_tgt = map (\<lambda>i. tgt ! i) sort_order
     in if list_all (\<lambda>i. i < length lang_ids) sort_order
        then Inr (zip sorted_src sorted_tgt, map (\<lambda>i. lang_ids ! i) sort_order)
        else Inl IndexError)"


text \<open>
  The specification's words: the sentences shorter than the threshold, in descending order
  of length, ties in their original order, each with its language identifier.
\<close>

definition spec_sortbylength ::
  "('a list \<times> 'b) list \<Rightarrow> 'l list \<Rightarrow> int \<Rightarrow> (('a list \<times> 'b) \<times> 'l) list" where
  "spec_sortbylength data lang_ids maxlen =
     filter (\<lambda>p. int (length (fst (fst p))) < maxlen)
       (sort_key (\<lambda>p. - int (length (fst (fst p)))) (zip data lang_ids))"

section \<open>Contiguous batches\<close>

text \<open>
  \<^verbatim>\<open>get_train_order(training_data, batch_size, startIdx)\<close>. The loop over
  \<^verbatim>\<open>enumerate(lengths, start=startIdx)\<close> is \<open>order_loop\<close>: its arguments are the index
  \<open>i\<close>, the lengths still to visit, and the loop's four variables. After the reset
  \<^verbatim>\<open>batch_counter = 1\<close> the counter is incremented as in every round, hence \<open>1 + 1\<close>.
\<close>

fun order_loop ::
  "int \<Rightarrow> int \<Rightarrow> int list \<Rightarrow> int list \<Rightarrow> int list \<Rightarrow> int \<Rightarrow> int \<Rightarrow> int list \<times> int list" where
  "order_loop batch_size i [] start_idxs end_idxs prev_length batch_counter =
     (start_idxs, end_idxs)"
| "order_loop batch_size i (len # lengths) start_idxs end_idxs prev_length batch_counter =
     (if len \<noteq> prev_length \<or> batch_counter > batch_size
      then order_loop batch_size (i + 1) lengths (start_idxs @ [i])
             (if prev_length \<noteq> - 1 then end_idxs @ [i - 1] else end_idxs) len (1 + 1)
      else order_loop batch_size (i + 1) lengths start_idxs end_idxs len (batch_counter + 1))"

definition get_train_order :: "('a list \<times> 'b) list \<Rightarrow> int \<Rightarrow> int \<Rightarrow> (int \<times> int) list" where
  "get_train_order training_data batch_size startIdx =
     (let lengths = map (\<lambda>elem. int (length (fst elem))) training_data;
          (start_idxs, end_idxs) = order_loop batch_size startIdx lengths [] [] (- 1) 0
      in zip start_idxs (end_idxs @ [startIdx + int (length lengths) - 1]))"


text \<open>
  The conditions the specification puts on the ranges, read from left to right over the
  index span from \<open>lo\<close> to \<open>hi\<close>: a range starts where the one before it ended, is not
  empty, holds at most \<open>b\<close> sentences, all of one length, and ends before \<open>hi\<close> only where
  the next sentence has another length or the range is full. \<open>f i\<close> is the length of the
  sentence with index \<open>i\<close>.
\<close>

definition len_at :: "('a list \<times> 'b) list \<Rightarrow> int \<Rightarrow> int \<Rightarrow> int" where
  "len_at training_data startIdx i = int (length (fst (training_data ! nat (i - startIdx))))"

fun batch_ranges :: "int \<Rightarrow> (int \<Rightarrow> int) \<Rightarrow> int \<Rightarrow> (int \<times> int) list \<Rightarrow> int \<Rightarrow> bool" where
  "batch_ranges b f lo [] hi = (lo = hi + 1)"
| "batch_ranges b f lo ((s, e) # rs) hi =
     (s = lo \<and> s \<le> e \<and> e \<le> hi \<and> e - s + 1 \<le> b \<and>
      list_all (\<lambda>i. f i = f s) [s..e] \<and>
      (e < hi \<longrightarrow> f (e + 1) \<noteq> f e \<or> e - s + 1 = b) \<and>
      batch_ranges b f (e + 1) rs hi)"

text \<open>
  For the proofs: the indices at which the loop opens a range, from a state in which a
  range is open (the previous length is a real length), and the ranges these starts give.
\<close>

fun starts_from :: "int \<Rightarrow> int \<Rightarrow> int \<Rightarrow> int \<Rightarrow> int list \<Rightarrow> int list" where
  "starts_from b i prev c [] = []"
| "starts_from b i prev c (l # ls) =
     (if l \<noteq> prev \<or> c > b then i # starts_from b (i + 1) l 2 ls
      else starts_from b (i + 1) l (c + 1) ls)"

definition ranges_of :: "int list \<Rightarrow> int \<Rightarrow> (int \<times> int) list" where
  "ranges_of starts hi = zip starts (map (\<lambda>s. s - 1) (tl starts) @ [hi])"

section \<open>Loops that can raise\<close>

text \<open>
  A \<^verbatim>\<open>for\<close> loop over a list whose body may raise: the first exception ends the loop.
  \<open>list_get\<close> is \<^verbatim>\<open>xs[i]\<close> for an index that is not negative.
\<close>

fun fold_err :: "('s \<Rightarrow> 'a \<Rightarrow> py_error + 's) \<Rightarrow> 's \<Rightarrow> 'a list \<Rightarrow> py_error + 's" where
  "fold_err f s [] = Inr s"
| "fold_err f s (x # xs) = (case f s x of Inl e \<Rightarrow> Inl e | Inr s' \<Rightarrow> fold_err f s' xs)"

definition list_get :: "'a list \<Rightarrow> nat \<Rightarrow> py_error + 'a" where
  "list_get xs i = (if i < length xs then Inr (xs ! i) else Inl IndexError)"

section \<open>Scoring\<close>

text \<open>
  \<^verbatim>\<open>computeF1(hyps, golds, prefix)\<close> with the default \<^verbatim>\<open>baseline=False\<close> and
  \<^verbatim>\<open>write_results=False\<close>: the tag sets are dictionaries already, and nothing is written.
  A tag set is the list of its items in the dictionary's order; the four counting
  dictionaries are association lists from tag name to count, \<open>AList.update\<close> being
  \<^verbatim>\<open>d[k] = v\<close>. \<^verbatim>\<open>from __future__ import division\<close> makes every \<^verbatim>\<open>/\<close> a true division,
  here a division of reals that raises ZeroDivisionError on a zero denominator.
\<close>

type_synonym tagset = "(string \<times> string) list"

type_synonym counts = "(string \<times> nat) list"

text \<open>\<^verbatim>\<open>d[k] += 1\<close>, a KeyError when the key is missing.\<close>

definition dict_incr :: "counts \<Rightarrow> string \<Rightarrow> py_error + counts" where
  "dict_incr d k = (case map_of d k of None \<Rightarrow> Inl KeyError
                     | Some n \<Rightarrow> Inr (AList.update k (n + 1) d))"

text \<open>
  The body of the precision loop and of the recall loop, for one item \<open>(k, v)\<close> of the
  \<open>i\<close>-th tag set. The two loops are the same text with the roles of \<^verbatim>\<open>hyps\<close> and
  \<^verbatim>\<open>golds\<close> exchanged and another sentinel: \<^verbatim>\<open>"NULL"\<close> for predictions, \<^verbatim>\<open>"_"\<close> for gold
  tags. \<open>others\<close> is the list the loop does not run over; \<^verbatim>\<open>others[i]\<close> is read only
  for an item that is not skipped.
\<close>

definition count_entry ::
  "string \<Rightarrow> tagset list \<Rightarrow> nat \<Rightarrow> counts \<times> counts \<Rightarrow> string \<times> string \<Rightarrow> py_error + counts \<times> counts" where
  "count_entry sentinel others i st entry =
     (case (st, entry) of ((scores, totals), (k, v)) \<Rightarrow>
        if v = sentinel then Inr (scores, totals)
        else
          let (scores, totals) =
                (if map_of scores k = None
                 then (AList.update k 0 scores, AList.update k 0 totals)
                 else (scores, totals))
          in case list_get others i of Inl e \<Rightarrow> Inl e
             | Inr other \<Rightarrow>
                 (case (if map_of other k = Some v then dict_incr scores k else Inr scores) of
                    Inl e \<Rightarrow> Inl e
                  | Inr scores \<Rightarrow>
                      (case dict_incr totals k of Inl e \<Rightarrow> Inl e
                       | Inr totals \<Rightarrow> Inr (scores, totals))))"

definition count_loop :: "string \<Rightarrow> tagset list \<Rightarrow> tagset list \<Rightarrow> py_error + counts \<times> counts" where
  "count_loop sentinel words others =
     fold_err (\<lambda>st (i, word_tags). fold_err (count_entry sentinel others i) st word_tags)
       ([], []) (enumerate 0 words)"

text \<open>\<^verbatim>\<open>a / b\<close> and \<^verbatim>\<open>sum(d.values())\<close>.\<close>

definition py_div :: "real \<Rightarrow> real \<Rightarrow> py_error + real" where
  "py_div a b = (if b = 0 then Inl ZeroDivisionError else Inr (a / b))"

definition sum_values :: "counts \<Rightarrow> real" where
  "sum_values d = real (sum_list (map snd d))"

text \<open>
  \<^verbatim>\<open>for k in f1_precision_scores.keys(): f1_precision_scores[k] = f1_precision_scores[k] / f1_precision_total[k]\<close>:
  the dictionary of per-tag precisions.
\<close>

definition divide_scores :: "counts \<Rightarrow> counts \<Rightarrow> py_error + (string \<times> real) list" where
  "divide_scores scores totals =
     fold_err (\<lambda>acc (k, s).
         case map_of totals k of None \<Rightarrow> Inl KeyError
         | Some t \<Rightarrow> (case py_div (real s) (real t) of Inl e \<Rightarrow> Inl e
                      | Inr q \<Rightarrow> Inr (acc @ [(k, q)])))
       [] scores"

text \<open>
  The body of the last loop, for the key \<open>k\<close> of \<^verbatim>\<open>f1_recall_scores\<close> with its count
  \<open>s\<close>: the recall of the tag (stored back into the dictionary by the code, and read in
  the same round only), the tag's F1, and the running weighted sum \<^verbatim>\<open>f1_average\<close>.
\<close>

definition f1_entry ::
  "(string \<times> real) list \<Rightarrow> counts \<Rightarrow> (string \<times> real) list \<times> real \<Rightarrow> string \<times> nat \<Rightarrow>
     py_error + (string \<times> real) list \<times> real" where
  "f1_entry precision recall_total st entry =
     (case (st, entry) of ((f1_scores, f1_average), (k, s)) \<Rightarrow>
        case map_of recall_total k of None \<Rightarrow> Inl KeyError
        | Some t \<Rightarrow>
           (case py_div (real s) (real t) of Inl e \<Rightarrow> Inl e
            | Inr r \<Rightarrow>
               (case (if r = 0 \<or> map_of precision k = None then Inr 0
                      else (case map_of precision k of None \<Rightarrow> Inl KeyError
                            | Some p \<Rightarrow> py_div (2 * (p * r)) (p + r))) of
                  Inl e \<Rightarrow> Inl e
                | Inr f \<Rightarrow> Inr (AList.update k f f1_scores, f1_average + real t * f))))"

definition f1_loop ::
  "(string \<times> real) list \<Rightarrow> counts \<Rightarrow> counts \<Rightarrow> py_error + (string \<times> real) list \<times> real" where
  "f1_loop precision recall_scores recall_total =
     fold_err (f1_entry precision recall_total) ([], 0) recall_scores"

text \<open>
  The function, statement by statement: precision loop, micro precision, per-tag
  precisions, recall loop, micro recall, per-tag F1 and their weighted sum, macro average,
  micro F1.
\<close>

definition computeF1 :: "tagset list \<Rightarrow> tagset list \<Rightarrow> py_error + real \<times> real" where
  "computeF1 hyps golds =
     (case count_loop ''NULL'' hyps golds of Inl e \<Rightarrow> Inl e
      | Inr (f1_precision_scores, f1_precision_total) \<Rightarrow>
     (case py_div (sum_values f1_precision_scores) (sum_values f1_precision_total) of Inl e \<Rightarrow> Inl e
      | Inr f1_micro_precision \<Rightarrow>
     (case divide_scores f1_precision_scores f1_precision_total of Inl e \<Rightarrow> Inl e
      | Inr precision \<Rightarrow>
     (case count_loop ''_'' golds hyps of Inl e \<Rightarrow> Inl e
      | Inr (f1_recall_scores, f1_recall_total) \<Rightarrow>
     (case py_div (sum_values f1_recall_scores) (sum_values f1_recall_total) of Inl e \<Rightarrow> Inl e
      | Inr f1_micro_recall \<Rightarrow>
     (case f1_loop precision f1_recall_scores f1_recall_total of Inl e \<Rightarrow> Inl e
      | Inr (f1_scores, f1_sum) \<Rightarrow>
     (case py_div f1_sum (sum_values f1_recall_total) of Inl e \<Rightarrow> Inl e
      | Inr f1_average \<Rightarrow>
     (case py_div (2 * (f1_micro_precision * f1_micro_recall))
                  (f1_micro_precision + f1_micro_recall) of Inl e \<Rightarrow> Inl e
      | Inr f1_micro_score \<Rightarrow> Inr (f1_average, f1_micro_score)))))))))"

text \<open>
  The specification's counts, for a tag \<open>k\<close>: the items with key \<open>k\<close> whose value is not
  the sentinel, and those among them whose value is also the value of \<open>k\<close> in the tag set
  at the same position in the other list.
\<close>

definition n_entries :: "string \<Rightarrow> string \<Rightarrow> tagset list \<Rightarrow> nat" where
  "n_entries sentinel k words =
     (\<Sum>w\<leftarrow>words. length (filter (\<lambda>(k', v). k' = k \<and> v \<noteq> sentinel) w))"

definition n_matching :: "string \<Rightarrow> string \<Rightarrow> tagset list \<Rightarrow> tagset list \<Rightarrow> nat" where
  "n_matching sentinel k words others =
     (\<Sum>(w, other)\<leftarrow>zip words others.
        length (filter (\<lambda>(k', v). k' = k \<and> v \<noteq> sentinel \<and> map_of other k = Some v) w))"

definition harmonic_mean :: "real \<Rightarrow> real \<Rightarrow> real" where
  "harmonic_mean p r = 2 * (p * r) / (p + r)"

text \<open>For the proofs: the two counting dictionaries hold the counts \<open>a\<close> and \<open>m\<close>.\<close>

definition counted :: "counts \<Rightarrow> counts \<Rightarrow> (string \<Rightarrow> nat) \<Rightarrow> (string \<Rightarrow> nat) \<Rightarrow> bool" where
  "counted scores totals a m \<longleftrightarrow>
     distinct (map fst scores) \<and>
     (\<forall>k. m k \<le> a k \<and> map_of totals k = (if a k = 0 then None else Some (a k)) \<and>
          map_of scores k = (if a k = 0 then None else Some (m k)))"

text \<open>Per-tag precision, recall and F1 as the specification defines them.\<close>

definition tag_precision :: "string \<Rightarrow> tagset list \<Rightarrow> tagset list \<Rightarrow> real" where
  "tag_precision k hyps golds =
     real (n_matching ''NULL'' k hyps golds) / real (n_entries ''NULL'' k hyps)"

definition tag_recall :: "string \<Rightarrow> tagset list \<Rightarrow> tagset list \<Rightarrow> real" where
  "tag_recall k hyps golds =
     real (n_matching ''_'' k golds hyps) / real (n_entries ''_'' k golds)"

definition tag_f1 :: "string \<Rightarrow> tagset list \<Rightarrow> tagset list \<Rightarrow> real" where
  "tag_f1 k hyps golds =
     (if tag_recall k hyps golds = 0 \<or> n_entries ''NULL'' k hyps = 0 then 0
      else harmonic_mean (tag_precision k hyps golds) (tag_recall k hyps golds))"

section \<open>Frozen tag sets\<close>

text \<open>
  The Python values that \<^verbatim>\<open>freeze_dict\<close> and \<^verbatim>\<open>unfreeze_dict\<close> meet: strings, the
  booleans (the marker's \<^verbatim>\<open>True\<close>), tuples, and dictionaries as the list of their items in
  insertion order. A pair \<^verbatim>\<open>(k, v)\<close> is the tuple of its two components.
\<close>

datatype pyval = Str string | PBool bool | Tuple "pyval list" | Dict "(pyval \<times> pyval) list"

definition FROZEN_TAG :: string where
  "FROZEN_TAG = ''__frozen__''"

text \<open>
  \<^verbatim>\<open>freeze_dict(obj)\<close>: the items of a dictionary, the marker appended, each value frozen
  in turn; any other object is returned as it is.
\<close>

function freeze_dict :: "pyval \<Rightarrow> pyval" where
  "freeze_dict (Dict obj) =
     (let dict_items = obj @ [(Str FROZEN_TAG, PBool True)]
      in Tuple (map (\<lambda>(k, v). Tuple [k, freeze_dict v]) dict_items))"
| "freeze_dict (Str s) = Str s"
| "freeze_dict (PBool b) = PBool b"
| "freeze_dict (Tuple xs) = Tuple xs"
  by pat_completeness auto
termination
proof (relation "measure size")
  show "wf (measure size)" by simp
next
  fix obj :: "(pyval \<times> pyval) list" and dict_items :: "(pyval \<times> pyval) list" and z k v
  assume d: "dict_items = obj @ [(Str FROZEN_TAG, PBool True)]"
    and z: "z \<in> set dict_items" and kv: "(k, v) = z"
  show "(v, Dict obj) \<in> measure size"
  proof (cases "z \<in> set obj")
    case True
    then have "size_prod size size z \<le> size_list (size_prod size size) obj"
      by (rule size_list_estimation') simp
    then show ?thesis using kv by auto
  next
    case False
    with d z have "z = (Str FROZEN_TAG, PBool True)" by simp
    with kv show ?thesis by auto
  qed
qed

text \<open>
  What \<^verbatim>\<open>dict((k, unfreeze_dict(v)) for k, v in obj)\<close> needs: every element of the tuple
  unpacks into two values (a tuple or a string of length two, or a dictionary with two
  keys; a boolean is not iterable), and the key is hashable (a dictionary is not, nor is a
  tuple that holds one).
\<close>

fun hashable :: "pyval \<Rightarrow> bool" where
  "hashable (Str s) = True"
| "hashable (PBool b) = True"
| "hashable (Tuple xs) = list_all hashable xs"
| "hashable (Dict kvs) = False"

fun unpack2 :: "pyval \<Rightarrow> py_error + pyval \<times> pyval" where
  "unpack2 (Tuple [a, b]) = Inr (a, b)"
| "unpack2 (Tuple xs) = Inl ValueError"
| "unpack2 (Str [c, d]) = Inr (Str [c], Str [d])"
| "unpack2 (Str s) = Inl ValueError"
| "unpack2 (Dict [(k1, v1), (k2, v2)]) = Inr (k1, k2)"
| "unpack2 (Dict kvs) = Inl ValueError"
| "unpack2 (PBool b) = Inl TypeError"

lemma fold_err_cong [fundef_cong]:
  "s = t \<Longrightarrow> xs = ys \<Longrightarrow> (\<And>a x. x \<in> set ys \<Longrightarrow> f a x = g a x) \<Longrightarrow>
     fold_err f s xs = fold_err g t ys"
proof (induction ys arbitrary: s t xs)
  case Nil
  then show ?case by simp
next
  case (Cons y ys)
  then show ?case by (auto split: sum.splits)
qed

lemma unpack2_size: "unpack2 x = Inr (k, v) \<Longrightarrow> size v \<le> size x"
  by (induction x rule: unpack2.induct) auto

text \<open>
  \<^verbatim>\<open>unfreeze_dict(obj)\<close>: a tuple that holds the marker becomes a dictionary, built item
  by item (a later item with the same key replaces the value of the earlier one), from
  which the marker's key is then deleted; any other object is returned as it is.
\<close>

function unfreeze_dict :: "pyval \<Rightarrow> py_error + pyval" where
  "unfreeze_dict (Tuple obj) =
     (if Tuple [Str FROZEN_TAG, PBool True] \<in> set obj
      then case fold_err (\<lambda>out x.
                  case unpack2 x of Inl e \<Rightarrow> Inl e
                  | Inr (k, v) \<Rightarrow>
                     (case unfreeze_dict v of Inl e \<Rightarrow> Inl e
                      | Inr v' \<Rightarrow> if hashable k then Inr (AList.update k v' out)
                                   else Inl TypeError))
                [] obj of
             Inl e \<Rightarrow> Inl e
           | Inr out \<Rightarrow>
               if Str FROZEN_TAG \<in> fst ` set out
               then Inr (Dict (AList.delete (Str FROZEN_TAG) out))
               else Inl KeyError
      else Inr (Tuple obj))"
| "unfreeze_dict (Str s) = Inr (Str s)"
| "unfreeze_dict (PBool b) = Inr (PBool b)"
| "unfreeze_dict (Dict kvs) = Inr (Dict kvs)"
  by pat_completeness auto
termination
proof (relation "measure size")
  show "wf (measure size)" by simp
next
  fix obj :: "pyval list" and out x :: pyval and p k v
  assume "x \<in> set obj" and "unpack2 x = Inr p" and "(k, v) = p"
  then have "size v \<le> size x" using unpack2_size by metis
  moreover have "size x < size (Tuple obj)"
    using \<open>x \<in> set obj\<close> by (simp add: less_Suc_eq_le size_list_estimation')
  ultimately show "(v, Tuple obj) \<in> measure size" by simp
qed


text \<open>
  The mappings of the round-trip law: the keys are strings and distinct, the values are
  strings or such mappings again. \<open>frozen_free\<close>: no key of the mapping, at any depth, is
  the marker's key.
\<close>

fun is_str :: "pyval \<Rightarrow> bool" where
  "is_str (Str s) = True"
| "is_str obj = False"

fun str_map :: "pyval \<Rightarrow> bool" where
  "str_map (Dict kvs) =
     (distinct (map fst kvs) \<and>
      list_all (\<lambda>(k, v). is_str k \<and> (is_str v \<or> str_map v)) kvs)"
| "str_map obj = False"

fun frozen_free :: "pyval \<Rightarrow> bool" where
  "frozen_free (Dict kvs) = list_all (\<lambda>(k, v). k \<noteq> Str FROZEN_TAG \<and> frozen_free v) kvs"
| "frozen_free obj = True"

section \<open>Log-space matrix product\<close>

text \<open>
  A two-dimensional array is the list of its rows. \<^verbatim>\<open>np.amax\<close> of an array without
  entries raises ValueError, and \<open>logDot\<close> takes the maxima before it multiplies, so the
  product is only reached with arrays that have a row and a column; for those the list of
  rows carries the shape. \<^verbatim>\<open>np.dot\<close> raises ValueError when the inner dimensions differ.
\<close>

fun ncols :: "'a list list \<Rightarrow> nat" where
  "ncols [] = 0"
| "ncols (row # rows) = length row"

definition transpose_m :: "'a list list \<Rightarrow> 'a list list" where
  "transpose_m a = map (\<lambda>j. map (\<lambda>row. row ! j) a) [0..<ncols a]"

definition amax :: "real list list \<Rightarrow> py_error + real" where
  "amax a = (case concat a of [] \<Rightarrow> Inl ValueError | x # xs \<Rightarrow> Inr (fold max xs x))"

definition matmul :: "real list list \<Rightarrow> real list list \<Rightarrow> real list list" where
  "matmul a b =
     map (\<lambda>row. map (\<lambda>j. \<Sum>k\<leftarrow>[0..<length b]. row ! k * b ! k ! j) [0..<ncols b]) a"

definition dot :: "real list list \<Rightarrow> real list list \<Rightarrow> py_error + real list list" where
  "dot a b = (if ncols a \<noteq> length b then Inl ValueError else Inr (matmul a b))"

text \<open>
  \<^verbatim>\<open>logDot(a, b, redAxis)\<close>, line by line; \<^verbatim>\<open>np.log(C, out=C)\<close> and \<^verbatim>\<open>C += max_a + max_b\<close>
  work on every entry.
\<close>

definition logDot :: "real list list \<Rightarrow> real list list \<Rightarrow> int option \<Rightarrow> py_error + real list list" where
  "logDot a b redAxis =
     (let b = (if redAxis = Some 1 then transpose_m b else b) in
      case amax a of Inl e \<Rightarrow> Inl e
      | Inr max_a \<Rightarrow>
     (case amax b of Inl e \<Rightarrow> Inl e
      | Inr max_b \<Rightarrow>
     (case dot (map (map (\<lambda>x. exp (x - max_a))) a) (map (map (\<lambda>x. exp (x - max_b))) b) of
        Inl e \<Rightarrow> Inl e
      | Inr C \<Rightarrow>
          let C = map (map ln) C;
              C = map (map (\<lambda>x. x + (max_a + max_b))) C
          in Inr (if redAxis = Some 1 then transpose_m C else C))))"

text \<open>
  An \<open>r\<close> by \<open>c\<close> array, and the specification's \<^verbatim>\<open>log(exp(A) . exp(B))\<close>: the matrix
  product of the entrywise exponentials, with no maximum subtracted, then the entrywise
  logarithm.
\<close>

definition matrix :: "nat \<Rightarrow> nat \<Rightarrow> 'a list list \<Rightarrow> bool" where
  "matrix r c a \<longleftrightarrow> length a = r \<and> list_all (\<lambda>row. length row = c) a"

definition log_matmul :: "real list list \<Rightarrow> real list list \<Rightarrow> real list list" where
  "log_matmul a b = map (map ln) (matmul (map (map exp) a) (map (map exp) b))"

(*DEFS*)

chapter \<open>Properties\<close>

section \<open>Properties of the log-space arithmetic\<close>

lemma sum_exp_nonneg: "0 \<le> (\<Sum>x\<leftarrow>row. exp x :: real)"
  by (rule sum_list_nonneg) auto

lemma sum_exp_pos: "row \<noteq> [] \<Longrightarrow> 0 < (\<Sum>x\<leftarrow>row. exp x :: real)"
proof (cases row)
  case Nil
  assume "row \<noteq> []"
  with Nil show ?thesis by simp
next
  case (Cons y ys)
  have "0 < exp y + (\<Sum>x\<leftarrow>ys. exp x)"
    by (rule add_pos_nonneg) (simp_all add: sum_exp_nonneg)
  with Cons show ?thesis by simp
qed

lemma foldl_logaddexp: "foldl logaddexp x xs = ln (exp x + (\<Sum>y\<leftarrow>xs. exp y))"
proof (induction xs arbitrary: x)
  case Nil
  show ?case by simp
next
  case (Cons y ys)
  have "0 < exp x + exp y" by (simp add: add_pos_pos)
  then have "exp (logaddexp x y) = exp x + exp y"
    by (simp add: logaddexp_def)
  then show ?case by (simp add: Cons.IH add.assoc)
qed

lemma logaddexp_reduce_eq:
  "row \<noteq> [] \<Longrightarrow> logaddexp_reduce row = Some (log_sum_exp row)"
  by (cases row) (simp_all add: foldl_logaddexp log_sum_exp_def)

lemma logNormalize_rows:
  "logNormalize a = map (\<lambda>row. map (\<lambda>x. x - log_sum_exp row) row) a"
proof -
  have "sub_denom row (logaddexp_reduce row) = map (\<lambda>x. x - log_sum_exp row) row" for row
    by (cases "row = []") (simp_all add: sub_denom_def logaddexp_reduce_eq)
  then show ?thesis
    by (simp add: logNormalize_def zip_map2 map_zip_map2 zip_same_conv_map)
qed

lemma sum_exp_shift:
  "(\<Sum>x\<leftarrow>row. exp (x - c)) = (\<Sum>x\<leftarrow>row. exp x) / exp (c::real)"
  by (induction row) (simp_all add: exp_diff add_divide_distrib)

lemma normalized_row_sum:
  assumes "row \<noteq> []"
  shows "(\<Sum>x\<leftarrow>map (\<lambda>x. x - log_sum_exp row) row. exp x) = 1"
proof -
  have pos: "0 < (\<Sum>x\<leftarrow>row. exp x)" using assms by (rule sum_exp_pos)
  have "(\<Sum>x\<leftarrow>map (\<lambda>x. x - log_sum_exp row) row. exp x) = (\<Sum>x\<leftarrow>row. exp (x - log_sum_exp row))"
    by (simp add: comp_def)
  also have "\<dots> = (\<Sum>x\<leftarrow>row. exp x) / exp (log_sum_exp row)" by (rule sum_exp_shift)
  also have "\<dots> = 1" using pos by (simp add: log_sum_exp_def)
  finally show ?thesis .
qed

lemma normalized_row_lse:
  assumes "row \<noteq> []"
  shows "log_sum_exp (map (\<lambda>x. x - log_sum_exp row) row) = 0"
  unfolding log_sum_exp_def [of "map (\<lambda>x. x - log_sum_exp row) row"]
  by (simp only: normalized_row_sum [OF assms] ln_one)

subsection \<open>C9: logNormalize makes every row a log-distribution\<close>

text \<open>
  C9, as the specification states it: for every real matrix, \<open>logNormalize\<close> subtracts
  from each entry the log-sum-exp of the entry's row, so that the exponentials of any row
  of the result sum to 1. A matrix of shape \<open>(1, 0)\<close> refutes the second half: its only
  row has no entry, the result's row has none either, and the empty sum is 0.
\<close>

theorem logNormalize_empty_row_counterexample:
  "logNormalize [[]] = [[]] \<and> (\<Sum>x\<leftarrow>logNormalize [[]] ! 0. exp x) \<noteq> 1"
  by (simp add: logNormalize_def sub_denom_def)

text \<open>
  C9, amended: for every real matrix, \<open>logNormalize\<close> subtracts from each entry the
  log-sum-exp of the entry's row, and the exponentials of every row of the result that has
  at least one entry sum to 1.
\<close>

theorem logNormalize_rows_sum_to_one:
  "logNormalize a = map (\<lambda>row. map (\<lambda>x. x - log_sum_exp row) row) a \<and>
   (\<forall>r \<in> set (logNormalize a). r \<noteq> [] \<longrightarrow> (\<Sum>x\<leftarrow>r. exp x) = 1)"
proof
  show "logNormalize a = map (\<lambda>row. map (\<lambda>x. x - log_sum_exp row) row) a"
    by (rule logNormalize_rows)
  show "\<forall>r \<in> set (logNormalize a). r \<noteq> [] \<longrightarrow> (\<Sum>x\<leftarrow>r. exp x) = 1"
  proof (intro ballI impI)
    fix r assume "r \<in> set (logNormalize a)" and ne: "r \<noteq> []"
    then obtain row where "row \<in> set a" and r: "r = map (\<lambda>x. x - log_sum_exp row) row"
      by (auto simp: logNormalize_rows)
    with ne have "row \<noteq> []" by auto
    then show "(\<Sum>x\<leftarrow>r. exp x) = 1" unfolding r by (rule normalized_row_sum)
  qed
qed

theorem logNormalize_rows_sum_to_one_witness:
  "logNormalize [[0, 0]] = [[- ln 2, - ln 2]] \<and> (\<Sum>x\<leftarrow>[- ln 2, - ln 2]. exp x) = (1::real)"
proof -
  have e: "logNormalize [[0, 0]] = [[- ln 2, - ln 2]]"
    by (simp add: logNormalize_def sub_denom_def logaddexp_def)
  have "[- ln 2, - ln 2] \<in> set (logNormalize [[0, 0]])"
    by (simp add: e)
  moreover have "[- ln 2, - ln (2::real)] \<noteq> []" by simp
  ultimately have "(\<Sum>x\<leftarrow>[- ln 2, - ln 2]. exp x) = (1::real)"
    using logNormalize_rows_sum_to_one [of "[[0, 0]]"] by blast
  with e show ?thesis by blast
qed

subsection \<open>C10: logNormalize is idempotent\<close>

text \<open>
  C10, as stated: \<open>logNormalize (logNormalize a) = logNormalize a\<close> for every real matrix,
  equivalently every row of \<open>logNormalize a\<close> has log-sum-exp 0. The second form fails on
  a row without entries: the reduction of the result's row is minus infinity, not 0.
\<close>

theorem logNormalize_lse_counterexample:
  "logaddexp_reduce (logNormalize [[]] ! 0) \<noteq> Some 0"
  by (simp add: logNormalize_def sub_denom_def)

text \<open>
  C10, amended: \<open>logNormalize\<close> is idempotent on every real matrix, and every row of
  \<open>logNormalize a\<close> that has at least one entry has log-sum-exp 0.
\<close>

theorem logNormalize_idempotent:
  "logNormalize (logNormalize a) = logNormalize a \<and>
   (\<forall>r \<in> set (logNormalize a). r \<noteq> [] \<longrightarrow> logaddexp_reduce r = Some 0)"
proof
  define f where "f = (\<lambda>row::real list. map (\<lambda>x. x - log_sum_exp row) row)"
  have fix_row: "f (f row) = f row" for row
  proof (cases "row = []")
    case True
    then show ?thesis by (simp add: f_def)
  next
    case False
    then have "log_sum_exp (map (\<lambda>x. x - log_sum_exp row) row) = 0"
      by (rule normalized_row_lse)
    then show ?thesis by (simp add: f_def)
  qed
  have n: "logNormalize m = map f m" for m
    by (simp add: logNormalize_rows f_def)
  have "map f (map f a) = map (\<lambda>row. f (f row)) a" by simp
  then show "logNormalize (logNormalize a) = logNormalize a"
    by (simp only: n fix_row)
  show "\<forall>r \<in> set (logNormalize a). r \<noteq> [] \<longrightarrow> logaddexp_reduce r = Some 0"
  proof (intro ballI impI)
    fix r assume "r \<in> set (logNormalize a)" and ne: "r \<noteq> []"
    then obtain row where r: "r = map (\<lambda>x. x - log_sum_exp row) row"
      by (auto simp: logNormalize_rows)
    with ne have "row \<noteq> []" by auto
    then have "log_sum_exp r = 0" unfolding r by (rule normalized_row_lse)
    with ne show "logaddexp_reduce r = Some 0" by (simp add: logaddexp_reduce_eq)
  qed
qed

theorem logNormalize_idempotent_witness:
  "logNormalize (logNormalize [[0, 0]]) = logNormalize [[0, 0]] \<and>
   logaddexp_reduce [- ln 2, - ln 2] = Some 0"
proof -
  have e: "logNormalize [[0, 0]] = [[- ln 2, - ln 2]]"
    by (simp add: logNormalize_def sub_denom_def logaddexp_def)
  have "[- ln 2, - ln 2] \<in> set (logNormalize [[0, 0]])"
    by (simp add: e)
  moreover have "[- ln 2, - ln (2::real)] \<noteq> []" by simp
  ultimately show ?thesis
    using logNormalize_idempotent [of "[[0, 0]]"] by blast
qed

section \<open>Properties of the length sort\<close>

lemma insort_key_map:
  "insort_key f (g x) (map g xs) = map g (insort_key (\<lambda>y. f (g y)) x xs)"
  by (induction xs) simp_all

lemma sort_key_map: "sort_key f (map g xs) = map g (sort_key (\<lambda>y. f (g y)) xs)"
  by (induction xs) (simp_all add: insort_key_map)

lemma sort_key_cong_set:
  "(\<And>x. x \<in> set xs \<Longrightarrow> f x = g x) \<Longrightarrow> sort_key f xs = sort_key g xs"
proof (induction xs)
  case Nil
  show ?case by simp
next
  case (Cons a xs)
  have ins: "insort_key f a ys = insort_key g a ys" if "set ys \<subseteq> set (a # xs)" for ys
    using that Cons.prems by (induction ys) simp_all
  have "insort_key f a (sort_key g xs) = insort_key g a (sort_key g xs)"
    by (rule ins) auto
  with Cons show ?case by simp
qed

lemma sortbylength_refines:
  fixes data :: "('a list \<times> 'b) list" and lang_ids :: "'l list"
  assumes len: "length lang_ids = length data"
  shows "sortbylength data lang_ids maxlen =
           Inr (map fst (spec_sortbylength data lang_ids maxlen),
                map snd (spec_sortbylength data lang_ids maxlen))"
proof -
  define n where "n = length data"
  define zs where "zs = zip data lang_ids"
  define e where "e = (\<lambda>i. (i, map fst data ! i))"
  define key where "key = (\<lambda>x::nat \<times> 'a list. - int (length (snd x)))"
  define p where "p = (\<lambda>item::nat \<times> 'a list. int (length (snd item)) < maxlen)"
  define key' where "key' = (\<lambda>q::('a list \<times> 'b) \<times> 'l. - int (length (fst (fst q))))"
  define p' where "p' = (\<lambda>q::('a list \<times> 'b) \<times> 'l. int (length (fst (fst q))) < maxlen)"
  define idx where "idx = sort_key (\<lambda>i. key' (zs ! i)) [0..<n]"
  define S where "S = filter p (sort_key key (map e [0..<n]))"
  have lz: "length zs = n" by (simp add: zs_def n_def len)
  have zs_nth: "zs ! i = (data ! i, lang_ids ! i)" if "i < n" for i
    using that by (simp add: zs_def n_def len)
  have set_idx: "set idx = {0..<n}" by (simp add: idx_def)
  have "sort_key key (map e [0..<n]) = map e (sort_key (\<lambda>i. key (e i)) [0..<n])"
    by (rule sort_key_map)
  also have "sort_key (\<lambda>i. key (e i)) [0..<n] = idx"
    unfolding idx_def
    by (rule sort_key_cong_set) (simp add: key_def key'_def e_def zs_nth n_def)
  finally have S_eq: "S = map e (filter (p \<circ> e) idx)"
    by (simp add: S_def filter_map)
  have pe: "filter (p \<circ> e) idx = filter (p' \<circ> (\<lambda>i. zs ! i)) idx"
    by (rule filter_cong) (simp_all add: set_idx p_def p'_def e_def zs_nth n_def)
  have spec: "spec_sortbylength data lang_ids maxlen = map (\<lambda>i. zs ! i) (filter (p' \<circ> (\<lambda>i. zs ! i)) idx)"
  proof -
    have "zs = map (\<lambda>i. zs ! i) [0..<n]" by (simp add: lz [symmetric] map_nth)
    then have "sort_key key' zs = map (\<lambda>i. zs ! i) idx"
      by (metis idx_def sort_key_map)
    then show ?thesis
      by (simp add: spec_sortbylength_def zs_def [symmetric] key'_def [symmetric]
                    p'_def [symmetric] filter_map)
  qed
  define F where "F = filter (p' \<circ> (\<lambda>i. zs ! i)) idx"
  have F_lt: "i < n" if "i \<in> set F" for i
    using that set_idx by (auto simp: F_def)
  have S_F: "S = map e F" unfolding S_eq pe F_def ..
  have order: "map fst S = F" by (simp add: S_F e_def comp_def)
  have srcs: "map snd S = map (\<lambda>i. fst (data ! i)) F"
    using F_lt by (simp add: S_F e_def comp_def n_def)
  have all_in: "list_all (\<lambda>i. i < length lang_ids) F"
    using F_lt by (simp add: list_all_iff len n_def)
  have tgts: "map (\<lambda>i. map snd data ! i) F = map (\<lambda>i. snd (data ! i)) F"
    using F_lt by (simp add: n_def)
  have "zip (map (\<lambda>i. fst (data ! i)) F) (map (\<lambda>i. snd (data ! i)) F) = map (\<lambda>i. data ! i) F"
    by (induction F) simp_all
  also have "\<dots> = map fst (map (\<lambda>i. zs ! i) F)"
    using F_lt by (simp add: zs_nth)
  also have "\<dots> = map fst (spec_sortbylength data lang_ids maxlen)"
    by (simp only: spec F_def)
  finally have d: "zip (map snd S) (map (\<lambda>i. map snd data ! i) F)
                   = map fst (spec_sortbylength data lang_ids maxlen)"
    by (simp only: srcs tgts)
  have l: "map (\<lambda>i. lang_ids ! i) F = map snd (spec_sortbylength data lang_ids maxlen)"
    using F_lt by (simp add: spec F_def [symmetric] zs_nth)
  have "sortbylength data lang_ids maxlen =
         (if list_all (\<lambda>i. i < length lang_ids) (map fst S)
          then Inr (zip (map snd S) (map (\<lambda>i. map snd data ! i) (map fst S)),
                    map (\<lambda>i. lang_ids ! i) (map fst S))
          else Inl IndexError)"
    by (simp add: sortbylength_def Let_def S_def key_def p_def e_def n_def)
  then show ?thesis
    using all_in by (simp add: order d l)
qed

subsection \<open>C5: the length sort keeps the short sentences, in stable descending order\<close>

text \<open>
  C5: with a language-identifier list aligned to the data, \<open>sortbylength\<close> returns the
  sentences whose source is shorter than \<open>maxlen\<close> and no other (as a multiset, each with
  its own language identifier), in non-increasing order of source length; for every
  length \<open>k\<close> the returned sentences of that length, paired with the returned language
  identifiers, are the input's sentences of that length with their identifiers, in the
  input's order (none when \<open>k\<close> is not below \<open>maxlen\<close>).
\<close>

theorem sortbylength_sorted_stable:
  fixes data :: "('a list \<times> 'b) list" and lang_ids :: "'l list"
  assumes len: "length lang_ids = length data"
  shows "\<exists>sd sl. sortbylength data lang_ids maxlen = Inr (sd, sl) \<and>
           length sl = length sd \<and>
           mset (zip sd sl) = mset (filter (\<lambda>p. int (length (fst (fst p))) < maxlen) (zip data lang_ids)) \<and>
           sorted_wrt (\<lambda>x y. length (fst y) \<le> length (fst x)) sd \<and>
           (\<forall>k. filter (\<lambda>p. length (fst (fst p)) = k) (zip sd sl) =
                (if int k < maxlen
                 then filter (\<lambda>p. length (fst (fst p)) = k) (zip data lang_ids) else []))"
proof -
  define zs where "zs = zip data lang_ids"
  define key' where "key' = (\<lambda>q::('a list \<times> 'b) \<times> 'l. - int (length (fst (fst q))))"
  define p' where "p' = (\<lambda>q::('a list \<times> 'b) \<times> 'l. int (length (fst (fst q))) < maxlen)"
  define R where "R = spec_sortbylength data lang_ids maxlen"
  have R_eq: "R = filter p' (sort_key key' zs)"
    by (simp add: R_def spec_sortbylength_def zs_def key'_def p'_def)
  have res: "sortbylength data lang_ids maxlen = Inr (map fst R, map snd R)"
    unfolding R_def using len by (rule sortbylength_refines)
  have z: "zip (map fst R) (map snd R) = R" by (simp add: zip_map_fst_snd)
  have m: "mset R = mset (filter p' zs)" by (simp add: R_eq)
  have "sorted (map key' R)" unfolding R_eq by (rule sorted_filter) simp
  then have "sorted_wrt (\<lambda>x y. key' x \<le> key' y) R" by (simp add: sorted_map)
  then have "sorted_wrt (\<lambda>x y. length (fst (fst y)) \<le> length (fst (fst x))) R"
    by (simp add: key'_def)
  then have s: "sorted_wrt (\<lambda>x y. length (fst y) \<le> length (fst x)) (map fst R)"
    by (simp add: sorted_wrt_map)
  have f: "filter (\<lambda>p. length (fst (fst p)) = k) R =
        (if int k < maxlen then filter (\<lambda>p. length (fst (fst p)) = k) zs else [])" for k
  proof -
    have eqk: "(length (fst (fst q)) = k) = (key' q = - int k)" for q
      by (simp add: key'_def)
    have "filter (\<lambda>q. key' q = - int k) R = filter p' (filter (\<lambda>q. key' q = - int k) (sort_key key' zs))"
      unfolding R_eq by (simp add: conj_commute)
    also have "\<dots> = filter p' (filter (\<lambda>q. key' q = - int k) zs)"
      by (simp only: sort_key_stable)
    also have "\<dots> = (if int k < maxlen then filter (\<lambda>q. key' q = - int k) zs else [])"
      by (auto simp: p'_def key'_def intro!: filter_cong filter_False)
    finally show ?thesis by (simp only: eqk)
  qed
  show ?thesis
    using res z m s f unfolding zs_def p'_def by (intro exI [of _ "map fst R"] exI [of _ "map snd R"]) simp
qed

theorem sortbylength_sorted_stable_witness:
  "length [''x'', ''y'', ''z'', ''u''] = length [(''ab'', 1::nat), (''abcd'', 2), (''cd'', 3), (''abcde'', 4)] \<and>
   sortbylength [(''ab'', 1::nat), (''abcd'', 2), (''cd'', 3), (''abcde'', 4)] [''x'', ''y'', ''z'', ''u''] 5
     = Inr ([(''abcd'', 2), (''ab'', 1), (''cd'', 3)], [''y'', ''x'', ''z'']) \<and>
   (\<exists>sd sl. sortbylength [(''ab'', 1::nat), (''abcd'', 2), (''cd'', 3), (''abcde'', 4)] [''x'', ''y'', ''z'', ''u''] 5 = Inr (sd, sl) \<and>
           sorted_wrt (\<lambda>x y. length (fst y) \<le> length (fst x)) sd)"
proof -
  have "sortbylength [(''ab'', 1::nat), (''abcd'', 2), (''cd'', 3), (''abcde'', 4)] [''x'', ''y'', ''z'', ''u''] 5
     = Inr ([(''abcd'', 2), (''ab'', 1), (''cd'', 3)], [''y'', ''x'', ''z''])"
    by code_simp
  moreover have "length [''x'', ''y'', ''z'', ''u''] = length [(''ab'', 1::nat), (''abcd'', 2), (''cd'', 3), (''abcde'', 4)]"
    by simp
  ultimately show ?thesis
    using sortbylength_sorted_stable [of "[''x'', ''y'', ''z'', ''u'']" "[(''ab'', 1::nat), (''abcd'', 2), (''cd'', 3), (''abcde'', 4)]" 5]
    by blast
qed

section \<open>Properties of the contiguous batches\<close>

lemma order_loop_starts:
  assumes "prev \<noteq> - 1" and "\<forall>l \<in> set ls. 0 \<le> l"
  shows "order_loop b i ls S E prev c =
    (S @ starts_from b i prev c ls, E @ map (\<lambda>s. s - 1) (starts_from b i prev c ls))"
  using assms
proof (induction ls arbitrary: i S E prev c)
  case Nil
  show ?case by simp
next
  case (Cons l ls)
  from Cons.prems have l: "l \<noteq> - 1" and ls: "\<forall>l \<in> set ls. 0 \<le> l" by auto
  show ?case
    using Cons.prems(1) by (simp add: Cons.IH [OF l ls] Cons.IH [OF Cons.prems(1) ls])
qed

lemma get_train_order_ranges:
  "get_train_order (x # xs) b st =
     ranges_of (st # starts_from b (st + 1) (int (length (fst x))) 2 (map (\<lambda>elem. int (length (fst elem))) xs))
       (st + int (length xs))"
proof -
  have "int (length (fst x)) \<noteq> - 1" by simp
  moreover have "\<forall>l \<in> set (map (\<lambda>elem. int (length (fst elem))) xs). 0 \<le> l" by simp
  ultimately show ?thesis
    by (simp add: get_train_order_def ranges_of_def order_loop_starts)
qed

lemma ranges_of_single: "ranges_of [s] hi = [(s, hi)]"
  by (simp add: ranges_of_def)

lemma ranges_of_Cons: "ranges_of (s # t # ts) hi = (s, t - 1) # ranges_of (t # ts) hi"
  by (simp add: ranges_of_def)

lemma batch_ranges_open:
  assumes "0 < b" and "s0 < i" and "c = i - s0 + 1" and "c \<le> b + 1"
    and "\<forall>j \<in> set [s0..i - 1]. f j = prev"
    and "\<forall>k < length ls. f (i + int k) = ls ! k"
  shows "batch_ranges b f s0 (ranges_of (s0 # starts_from b i prev c ls) (i + int (length ls) - 1))
           (i + int (length ls) - 1)"
  using assms
proof (induction ls arbitrary: i prev c s0)
  case Nil
  have "s0 \<le> i - 1" using Nil.prems(2) by simp
  moreover have "i - 1 - s0 + 1 \<le> b" using Nil.prems(3,4) by simp
  moreover have "list_all (\<lambda>j. f j = f s0) [s0..i - 1]"
    using Nil.prems(2,5) by (simp add: list_all_iff)
  ultimately show ?case by (simp add: ranges_of_single)
next
  case (Cons l ls)
  let ?hi = "i + int (length (l # ls)) - 1"
  have hi: "?hi = (i + 1) + int (length ls) - 1" by simp
  have fi: "f i = l" using Cons.prems(6) [rule_format, of 0] by simp
  have fprev: "f (i - 1) = prev" using Cons.prems(2,5) by simp
  have uni: "list_all (\<lambda>j. f j = f s0) [s0..i - 1]"
    using Cons.prems(2,5) by (simp add: list_all_iff)
  have rest: "\<forall>k < length ls. f ((i + 1) + int k) = ls ! k"
  proof (intro allI impI)
    fix k assume "k < length ls"
    then have "f (i + int (Suc k)) = (l # ls) ! Suc k" using Cons.prems(6) by auto
    moreover have "i + int (Suc k) = (i + 1) + int k" by simp
    ultimately show "f ((i + 1) + int k) = ls ! k" by (simp only: nth_Cons_Suc)
  qed
  show ?case
  proof (cases "l \<noteq> prev \<or> c > b")
    case True
    have tail: "batch_ranges b f i (ranges_of (i # starts_from b (i + 1) l 2 ls) ((i + 1) + int (length ls) - 1))
            ((i + 1) + int (length ls) - 1)"
    proof (rule Cons.IH)
      show "0 < b" by fact
      show "i < i + 1" by simp
      show "2 = i + 1 - i + 1" by simp
      show "2 \<le> b + 1" using Cons.prems(1) by simp
      show "\<forall>j \<in> set [i..i + 1 - 1]. f j = l" using fi by simp
      show "\<forall>k < length ls. f ((i + 1) + int k) = ls ! k" by (rule rest)
    qed
    have bound: "f (i - 1 + 1) \<noteq> f (i - 1) \<or> i - 1 - s0 + 1 = b"
      using True Cons.prems(3,4) fi fprev by auto
    have "s0 \<le> i - 1" using Cons.prems(2) by simp
    moreover have "i - 1 \<le> i + 1 + int (length ls) - 1" by simp
    moreover have "i - 1 - s0 + 1 \<le> b" using Cons.prems(3,4) by simp
    moreover have "i - 1 + 1 = i" by simp
    ultimately have "batch_ranges b f s0 ((s0, i - 1) # ranges_of (i # starts_from b (i + 1) l 2 ls) ((i + 1) + int (length ls) - 1))
            ((i + 1) + int (length ls) - 1)"
      using uni bound tail by (simp only: batch_ranges.simps simp_thms)
    then show ?thesis
      unfolding hi using True by (simp add: ranges_of_Cons del: batch_ranges.simps)
  next
    case False
    then have same: "l = prev" and cb: "c \<le> b" by auto
    have "batch_ranges b f s0 (ranges_of (s0 # starts_from b (i + 1) l (c + 1) ls) ((i + 1) + int (length ls) - 1))
            ((i + 1) + int (length ls) - 1)"
    proof (rule Cons.IH)
      show "0 < b" by fact
      show "s0 < i + 1" using Cons.prems(2) by simp
      show "c + 1 = i + 1 - s0 + 1" using Cons.prems(3) by simp
      show "c + 1 \<le> b + 1" using cb by simp
      have "set [s0..i + 1 - 1] = insert i (set [s0..i - 1])"
        using Cons.prems(2) by auto
      then show "\<forall>j \<in> set [s0..i + 1 - 1]. f j = l"
        using Cons.prems(5) fi same by simp
      show "\<forall>k < length ls. f ((i + 1) + int k) = ls ! k" by (rule rest)
    qed
    then show ?thesis unfolding hi using False by (simp del: batch_ranges.simps)
  qed
qed


lemma batch_ranges_partition:
  "batch_ranges b f lo rs hi \<Longrightarrow> lo \<le> hi + 1 \<Longrightarrow>
     concat (map (\<lambda>(s, e). [s..e]) rs) = [lo..hi] \<and> (\<forall>(s, e) \<in> set rs. s \<le> e)"
proof (induction rs arbitrary: lo)
  case Nil
  then show ?case by simp
next
  case (Cons r rs)
  obtain s e where r: "r = (s, e)" by (cases r)
  from Cons.prems r have s: "s = lo" and se: "s \<le> e" and eh: "e \<le> hi"
    and tl: "batch_ranges b f (e + 1) rs hi" by simp_all
  have "concat (map (\<lambda>(s, e). [s..e]) rs) = [e + 1..hi] \<and> (\<forall>(s, e) \<in> set rs. s \<le> e)"
    using tl eh by (intro Cons.IH) simp_all
  moreover have "[lo..hi] = [lo..e] @ [e + 1..hi]"
    using s se eh by (intro upto_split2) simp_all
  ultimately show ?case using r s se by simp
qed

lemma len_at_nth:
  "k < length training_data \<Longrightarrow>
     len_at training_data st (st + int k) = map (\<lambda>elem. int (length (fst elem))) training_data ! k"
  by (simp add: len_at_def)

lemma get_train_order_batch_ranges:
  assumes "training_data \<noteq> []" and "0 < b"
  shows "batch_ranges b (len_at training_data st) st (get_train_order training_data b st)
           (st + int (length training_data) - 1)"
proof -
  obtain x xs where d: "training_data = x # xs" using assms(1) by (cases training_data) auto
  define ls where "ls = map (\<lambda>elem. int (length (fst elem))) xs"
  have "batch_ranges b (len_at training_data st) st
          (ranges_of (st # starts_from b (st + 1) (int (length (fst x))) 2 ls) ((st + 1) + int (length ls) - 1))
          ((st + 1) + int (length ls) - 1)"
  proof (rule batch_ranges_open)
    show "0 < b" by fact
    show "st < st + 1" by simp
    show "2 = st + 1 - st + 1" by simp
    show "2 \<le> b + 1" using assms(2) by simp
    show "\<forall>j \<in> set [st..st + 1 - 1]. len_at training_data st j = int (length (fst x))"
      by (simp add: len_at_def d)
    show "\<forall>k < length ls. len_at training_data st (st + 1 + int k) = ls ! k"
    proof (intro allI impI)
      fix k assume k: "k < length ls"
      have "st + 1 + int k = st + int (Suc k)" by simp
      moreover have "Suc k < length training_data" using k by (simp add: d ls_def)
      ultimately have "len_at training_data st (st + 1 + int k) =
          map (\<lambda>elem. int (length (fst elem))) training_data ! Suc k"
        by (simp only: len_at_nth)
      then show "len_at training_data st (st + 1 + int k) = ls ! k"
        by (simp add: d ls_def)
    qed
  qed
  then have "batch_ranges b (len_at training_data st) st
          (ranges_of (st # starts_from b (st + 1) (int (length (fst x))) 2 ls) (st + int (length xs)))
          (st + int (length xs))"
    by (simp add: ls_def del: batch_ranges.simps)
  moreover have "get_train_order training_data b st =
      ranges_of (st # starts_from b (st + 1) (int (length (fst x))) 2 ls) (st + int (length xs))"
    unfolding d ls_def by (rule get_train_order_ranges)
  moreover have "st + int (length training_data) - 1 = st + int (length xs)"
    unfolding d by simp
  ultimately show ?thesis by (simp only:)
qed


lemma length_ranges_of: "starts \<noteq> [] \<Longrightarrow> length (ranges_of starts hi) = length starts"
  by (cases starts) (simp_all add: ranges_of_def)

lemma ranges_of_append:
  "A \<noteq> [] \<Longrightarrow> ranges_of (A @ k # B) hi = ranges_of A (k - 1) @ ranges_of (k # B) hi"
proof (cases A)
  case Nil
  assume "A \<noteq> []"
  with Nil show ?thesis by simp
next
  case (Cons a list)
  have "zip ((a # list) @ (k # B)) ((map (\<lambda>s. s - 1) list @ [k - 1]) @ (map (\<lambda>s. s - 1) B @ [hi])) =
        zip (a # list) (map (\<lambda>s. s - 1) list @ [k - 1]) @ zip (k # B) (map (\<lambda>s. s - 1) B @ [hi])"
    by (rule zip_append) simp
  then show ?thesis by (simp add: ranges_of_def Cons)
qed

lemma starts_from_replicate:
  assumes "0 < b" and "2 \<le> c" and "c \<le> b + 1"
  shows "int (length (starts_from b i l c (replicate m l))) = (int m + c - 2) div b"
  using assms
proof (induction m arbitrary: i c)
  case 0
  then show ?case by (simp add: div_pos_pos_trivial)
next
  case (Suc m)
  show ?case
  proof (cases "c > b")
    case True
    with Suc.prems have c: "c = b + 1" by simp
    have "int (length (starts_from b (i + 1) l 2 (replicate m l))) = (int m + 2 - 2) div b"
      using Suc.prems(1) by (intro Suc.IH) simp_all
    moreover have "(int (Suc m) + c - 2) div b = 1 + int m div b"
      using Suc.prems(1) by (simp add: c)
    ultimately show ?thesis using True by simp
  next
    case False
    have "int (length (starts_from b (i + 1) l (c + 1) (replicate m l))) = (int m + (c + 1) - 2) div b"
      using Suc.prems False by (intro Suc.IH) simp_all
    moreover have "int m + (c + 1) - 2 = int (Suc m) + c - 2" by simp
    ultimately show ?thesis using False by simp
  qed
qed

lemma starts_from_append:
  "last (prev # xs) \<noteq> y \<Longrightarrow>
   starts_from b i prev c (xs @ y # ys) =
     starts_from b i prev c xs @ (i + int (length xs)) # starts_from b (i + int (length xs) + 1) y 2 ys"
proof (induction xs arbitrary: i prev c)
  case Nil
  then show ?case by simp
next
  case (Cons x xs)
  from Cons.prems have l: "last (x # xs) \<noteq> y" by simp
  have eq: "i + 1 + int (length xs) = i + int (length (x # xs))" by simp
  show ?case
    by (simp only: append_Cons starts_from.simps Cons.IH [OF l] eq) simp
qed

lemma get_train_order_Nil: "get_train_order [] b st = []"
  by (simp add: get_train_order_def)

lemma get_train_order_append:
  assumes "xs = [] \<or> ys = [] \<or> length (fst (last xs)) \<noteq> length (fst (hd ys))"
  shows "get_train_order (xs @ ys) b st =
           get_train_order xs b st @ get_train_order ys b (st + int (length xs))"
proof (cases "xs = [] \<or> ys = []")
  case True
  then show ?thesis by (auto simp: get_train_order_Nil)
next
  case False
  then obtain x xs' y ys' where xs: "xs = x # xs'" and ys: "ys = y # ys'"
    by (cases xs; cases ys) auto
  let ?len = "\<lambda>elem::'a list \<times> 'b. int (length (fst elem))"
  from assms False have "length (fst (last xs)) \<noteq> length (fst (hd ys))" by simp
  then have ne: "last (?len x # map ?len xs') \<noteq> ?len y"
    by (simp add: xs ys last_map split: if_splits)
  have "starts_from b (st + 1) (?len x) 2 (map ?len (xs' @ ys)) =
        starts_from b (st + 1) (?len x) 2 (map ?len xs') @
          (st + 1 + int (length (map ?len xs'))) #
          starts_from b (st + 1 + int (length (map ?len xs')) + 1) (?len y) 2 (map ?len ys')"
    unfolding ys map_append list.map by (rule starts_from_append [OF ne])
  moreover have "st + 1 + int (length xs') = st + int (length xs)" by (simp add: xs)
  ultimately have st: "starts_from b (st + 1) (?len x) 2 (map ?len (xs' @ ys)) =
        starts_from b (st + 1) (?len x) 2 (map ?len xs') @
          (st + int (length xs)) #
          starts_from b (st + int (length xs) + 1) (?len y) 2 (map ?len ys')"
    by simp
  have "get_train_order (xs @ ys) b st =
      ranges_of ((st # starts_from b (st + 1) (?len x) 2 (map ?len xs')) @
          (st + int (length xs)) #
          starts_from b (st + int (length xs) + 1) (?len y) 2 (map ?len ys'))
        (st + int (length (xs' @ ys)))"
    unfolding xs append_Cons get_train_order_ranges st [unfolded xs] by simp
  also have "\<dots> = ranges_of (st # starts_from b (st + 1) (?len x) 2 (map ?len xs')) (st + int (length xs) - 1)
        @ ranges_of ((st + int (length xs)) #
          starts_from b (st + int (length xs) + 1) (?len y) 2 (map ?len ys')) (st + int (length (xs' @ ys)))"
    by (rule ranges_of_append) simp
  also have "ranges_of (st # starts_from b (st + 1) (?len x) 2 (map ?len xs')) (st + int (length xs) - 1)
       = get_train_order xs b st"
    by (simp add: xs get_train_order_ranges)
  also have "ranges_of ((st + int (length xs)) #
          starts_from b (st + int (length xs) + 1) (?len y) 2 (map ?len ys')) (st + int (length (xs' @ ys)))
       = get_train_order ys b (st + int (length xs))"
    by (simp add: xs ys get_train_order_ranges add.assoc)
  finally show ?thesis .
qed

lemma get_train_order_run:
  assumes "0 < b" and "run \<noteq> []" and "\<forall>x \<in> set run. int (length (fst x)) = l"
  shows "int (length (get_train_order run b st)) = (int (length run) + b - 1) div b"
proof -
  obtain x xs where r: "run = x # xs" using assms(2) by (cases run) auto
  have ls: "map (\<lambda>elem. int (length (fst elem))) xs = replicate (length xs) l"
    using assms(3) by (simp add: r map_replicate_const [symmetric] cong: map_cong)
  have lx: "int (length (fst x)) = l" using assms(3) by (simp add: r)
  have "int (length (starts_from b (st + 1) l 2 (replicate (length xs) l))) = (int (length xs) + 2 - 2) div b"
    using assms(1) by (intro starts_from_replicate) simp_all
  then have "int (length (get_train_order run b st)) = 1 + int (length xs) div b"
    by (simp add: r get_train_order_ranges length_ranges_of ls lx)
  also have "\<dots> = (int (length run) + b - 1) div b"
    using assms(1) by (simp add: r)
  finally show ?thesis .
qed


lemma ceiling_div_pos:
  assumes "0 < (b::int)"
  shows "\<lceil>real_of_int a / real_of_int b\<rceil> = (a + b - 1) div b"
proof -
  have "\<lceil>real_of_int a / real_of_int b\<rceil> = - (- a div b)" by (rule ceiling_divide_eq_div)
  also have "\<dots> = (a + b - 1) div b"
  proof -
    have "a = b * (a div b) + a mod b" by simp
    show ?thesis
    proof (cases "a mod b = 0")
      case True
      then obtain q where q: "a = b * q" by auto
      have "(b * q + b - 1) div b = q"
      proof -
        have "b * q + b - 1 = (b - 1) + b * q" by simp
        then have "(b * q + b - 1) div b = ((b - 1) + b * q) div b" by (simp only:)
        also have "\<dots> = (b - 1) div b + q" using assms by (simp only: div_mult_self2)
        also have "(b - 1) div b = 0" using assms by (simp add: div_pos_pos_trivial)
        finally show ?thesis by simp
      qed
      moreover have "- (- (b * q) div b) = q"
      proof -
        have "- (b * q) div b = - q"
          using assms nonzero_mult_div_cancel_left [of b "- q"] by simp
        then show ?thesis by simp
      qed
      ultimately show ?thesis by (simp add: q)
    next
      case False
      then have "- a div b = - (a div b) - 1" using assms by (simp add: zdiv_zminus1_eq_if)
      moreover have "(a + b - 1) div b = a div b + 1"
      proof -
        have "0 \<le> a mod b" using assms by (rule pos_mod_sign)
        with False have m1: "0 < a mod b" by linarith
        have m2: "a mod b < b" using assms by (rule pos_mod_bound)
        note m = m1 m2
        have "a + b - 1 = (a mod b - 1) + b * (a div b + 1)" by (simp add: algebra_simps)
        then have "(a + b - 1) div b = ((a mod b - 1) + b * (a div b + 1)) div b" by (simp only:)
        also have "\<dots> = (a mod b - 1) div b + (a div b + 1)"
          using assms by (simp only: div_mult_self2)
        also have "(a mod b - 1) div b = 0" using m by (simp add: div_pos_pos_trivial)
        finally show ?thesis by simp
      qed
      ultimately show ?thesis by simp
    qed
  qed
  finally show ?thesis .
qed

subsection \<open>C2: the ranges partition the index span into length-uniform batches\<close>

text \<open>
  C2: for a dataset of at least one sentence and a positive batch size, the ranges of
  \<open>get_train_order\<close>, in order, cover the indices from \<open>startIdx\<close> to
  \<open>startIdx + n - 1\<close> once each; a range ends exactly where the next sentence has another
  length or the range holds \<open>batch_size\<close> sentences already (\<open>batch_ranges\<close>); and a maximal
  run of equal-length sentences gets ranges of its own, as many as the ceiling of its size
  over the batch size.
\<close>

theorem get_train_order_partition:
  assumes "training_data \<noteq> []" and "0 < batch_size"
  shows "concat (map (\<lambda>(s, e). [s..e]) (get_train_order training_data batch_size startIdx))
           = [startIdx..startIdx + int (length training_data) - 1] \<and>
         batch_ranges batch_size (len_at training_data startIdx) startIdx
           (get_train_order training_data batch_size startIdx)
           (startIdx + int (length training_data) - 1) \<and>
         (\<forall>pre run post l.
            training_data = pre @ run @ post \<and> run \<noteq> [] \<and>
            (\<forall>x \<in> set run. length (fst x) = l) \<and>
            (pre = [] \<or> length (fst (last pre)) \<noteq> l) \<and>
            (post = [] \<or> length (fst (hd post)) \<noteq> l) \<longrightarrow>
            get_train_order training_data batch_size startIdx =
              get_train_order pre batch_size startIdx @
              get_train_order run batch_size (startIdx + int (length pre)) @
              get_train_order post batch_size (startIdx + int (length pre) + int (length run)) \<and>
            int (length (get_train_order run batch_size (startIdx + int (length pre)))) =
              \<lceil>real (length run) / real_of_int batch_size\<rceil>)"
proof (intro conjI allI impI)
  have br: "batch_ranges batch_size (len_at training_data startIdx) startIdx
           (get_train_order training_data batch_size startIdx)
           (startIdx + int (length training_data) - 1)"
    using assms by (rule get_train_order_batch_ranges)
  then show "batch_ranges batch_size (len_at training_data startIdx) startIdx
           (get_train_order training_data batch_size startIdx)
           (startIdx + int (length training_data) - 1)" .
  have "startIdx \<le> startIdx + int (length training_data) - 1 + 1" by simp
  with br show "concat (map (\<lambda>(s, e). [s..e]) (get_train_order training_data batch_size startIdx))
           = [startIdx..startIdx + int (length training_data) - 1]"
    using batch_ranges_partition by blast
next
  fix pre run post :: "('a list \<times> 'b) list" and l
  assume h: "training_data = pre @ run @ post \<and> run \<noteq> [] \<and>
            (\<forall>x \<in> set run. length (fst x) = l) \<and>
            (pre = [] \<or> length (fst (last pre)) \<noteq> l) \<and>
            (post = [] \<or> length (fst (hd post)) \<noteq> l)"
  then have d: "training_data = pre @ run @ post" and ne: "run \<noteq> []"
    and all: "\<forall>x \<in> set run. length (fst x) = l"
    and p: "pre = [] \<or> length (fst (last pre)) \<noteq> l"
    and q: "post = [] \<or> length (fst (hd post)) \<noteq> l" by blast+
  have hd_run: "length (fst (hd (run @ post))) = l" using ne all by (cases run) auto
  have last_run: "length (fst (last run)) = l" using ne all by auto
  have 1: "get_train_order (pre @ run @ post) batch_size startIdx =
        get_train_order pre batch_size startIdx @
        get_train_order (run @ post) batch_size (startIdx + int (length pre))"
    using p hd_run by (intro get_train_order_append) auto
  have 2: "get_train_order (run @ post) batch_size (startIdx + int (length pre)) =
        get_train_order run batch_size (startIdx + int (length pre)) @
        get_train_order post batch_size (startIdx + int (length pre) + int (length run))"
    using q last_run by (intro get_train_order_append) auto
  show "get_train_order training_data batch_size startIdx =
              get_train_order pre batch_size startIdx @
              get_train_order run batch_size (startIdx + int (length pre)) @
              get_train_order post batch_size (startIdx + int (length pre) + int (length run))"
    unfolding d by (simp only: 1 2)
  have "\<forall>x \<in> set run. int (length (fst x)) = int l" using all by simp
  with assms(2) ne
  have "int (length (get_train_order run batch_size (startIdx + int (length pre)))) =
         (int (length run) + batch_size - 1) div batch_size"
    by (rule get_train_order_run)
  also have "\<dots> = \<lceil>real_of_int (int (length run)) / real_of_int batch_size\<rceil>"
    using assms(2) by (simp only: ceiling_div_pos)
  finally show "int (length (get_train_order run batch_size (startIdx + int (length pre)))) =
              \<lceil>real (length run) / real_of_int batch_size\<rceil>" by simp
qed

theorem get_train_order_partition_witness:
  "[(''aa'', ()), (''bb'', ()), (''cc'', ()), (''d'', ())] \<noteq> [] \<and> (0::int) < 2 \<and>
   get_train_order [(''aa'', ()), (''bb'', ()), (''cc'', ()), (''d'', ())] 2 10
     = [(10, 11), (12, 12), (13, 13)] \<and>
   concat (map (\<lambda>(s, e). [s..e])
     (get_train_order [(''aa'', ()), (''bb'', ()), (''cc'', ()), (''d'', ())] 2 10)) = [10..13] \<and>
   batch_ranges 2 (len_at [(''aa'', ()), (''bb'', ()), (''cc'', ()), (''d'', ())] 10) 10
     (get_train_order [(''aa'', ()), (''bb'', ()), (''cc'', ()), (''d'', ())] 2 10) 13"
proof -
  have ne: "[(''aa'', ()), (''bb'', ()), (''cc'', ()), (''d'', ())] \<noteq> []" by simp
  have pos: "(0::int) < 2" by simp
  have v: "get_train_order [(''aa'', ()), (''bb'', ()), (''cc'', ()), (''d'', ())] 2 10
     = [(10, 11), (12, 12), (13, 13)]"
    by code_simp
  have hi: "10 + int (length [(''aa'', ()), (''bb'', ()), (''cc'', ()), (''d'', ())]) - 1 = 13"
    by simp
  note t = get_train_order_partition [OF ne pos, of 10, unfolded hi]
  have c: "concat (map (\<lambda>(s, e). [s..e])
     (get_train_order [(''aa'', ()), (''bb'', ()), (''cc'', ()), (''d'', ())] 2 10)) = [10..13]"
    by (rule conjunct1 [OF t])
  have b: "batch_ranges 2 (len_at [(''aa'', ()), (''bb'', ()), (''cc'', ()), (''d'', ())] 10) 10
     (get_train_order [(''aa'', ()), (''bb'', ()), (''cc'', ()), (''d'', ())] 2 10) 13"
    by (rule conjunct1 [OF conjunct2 [OF t]])
  from ne pos v c b show ?thesis by (intro conjI)
qed

section \<open>Properties of the scorer\<close>

lemma count_entry_counted:
  assumes i: "i < length others" and c: "counted scores totals a m"
  shows "\<exists>scores' totals'.
     count_entry sentinel others i (scores, totals) (k0, v) = Inr (scores', totals') \<and>
     counted scores' totals'
       (\<lambda>k. a k + (if k = k0 \<and> v \<noteq> sentinel then 1 else 0))
       (\<lambda>k. m k + (if k = k0 \<and> v \<noteq> sentinel \<and> map_of (others ! i) k = Some v then 1 else 0))"
proof (cases "v = sentinel")
  case True
  then show ?thesis using c by (simp add: count_entry_def)
next
  case False
  from c have d: "distinct (map fst scores)"
    and le: "\<And>k. m k \<le> a k"
    and t: "\<And>k. map_of totals k = (if a k = 0 then None else Some (a k))"
    and s: "\<And>k. map_of scores k = (if a k = 0 then None else Some (m k))"
    by (simp_all add: counted_def)
  have mz: "m k = 0" if "a k = 0" for k using le [of k] that by simp
  note le' = le_SucI [OF le]
  show ?thesis
  proof (cases "a k0 = 0")
    case True
    then show ?thesis
      using False i d
      by (auto simp: count_entry_def list_get_def dict_incr_def counted_def
            AList.update_conv' AList.distinct_update t s mz le le')
  next
    case nz: False
    then show ?thesis
      using False i d
      by (auto simp: count_entry_def list_get_def dict_incr_def counted_def
            AList.update_conv' AList.distinct_update t s mz le le')
  qed
qed

lemma counted_cong:
  "counted scores totals a m \<Longrightarrow> (\<And>k. a k = a' k) \<Longrightarrow> (\<And>k. m k = m' k) \<Longrightarrow>
     counted scores totals a' m'"
  by (simp add: counted_def)

lemma count_word_counted:
  assumes "i < length others" and "counted scores totals a m"
  shows "\<exists>scores' totals'.
     fold_err (count_entry sentinel others i) (scores, totals) w = Inr (scores', totals') \<and>
     counted scores' totals'
       (\<lambda>k. a k + length (filter (\<lambda>(k', v). k' = k \<and> v \<noteq> sentinel) w))
       (\<lambda>k. m k + length (filter (\<lambda>(k', v). k' = k \<and> v \<noteq> sentinel \<and>
                                    map_of (others ! i) k = Some v) w))"
  using assms(2)
proof (induction w arbitrary: scores totals a m)
  case Nil
  then show ?case by simp
next
  case (Cons e w)
  obtain k0 v where e: "e = (k0, v)" by (cases e)
  from count_entry_counted [OF assms(1) Cons.prems, of sentinel k0 v]
  obtain s1 t1 where
    step: "count_entry sentinel others i (scores, totals) (k0, v) = Inr (s1, t1)" and
    c1: "counted s1 t1
       (\<lambda>k. a k + (if k = k0 \<and> v \<noteq> sentinel then 1 else 0))
       (\<lambda>k. m k + (if k = k0 \<and> v \<noteq> sentinel \<and> map_of (others ! i) k = Some v then 1 else 0))"
    by blast
  from Cons.IH [OF c1] obtain s2 t2 where
    rest: "fold_err (count_entry sentinel others i) (s1, t1) w = Inr (s2, t2)" and
    c2: "counted s2 t2
       (\<lambda>k. a k + (if k = k0 \<and> v \<noteq> sentinel then 1 else 0)
              + length (filter (\<lambda>(k', v). k' = k \<and> v \<noteq> sentinel) w))
       (\<lambda>k. m k + (if k = k0 \<and> v \<noteq> sentinel \<and> map_of (others ! i) k = Some v then 1 else 0)
              + length (filter (\<lambda>(k', v). k' = k \<and> v \<noteq> sentinel \<and>
                                    map_of (others ! i) k = Some v) w))"
    by blast
  have "counted s2 t2
       (\<lambda>k. a k + length (filter (\<lambda>(k', v). k' = k \<and> v \<noteq> sentinel) (e # w)))
       (\<lambda>k. m k + length (filter (\<lambda>(k', v). k' = k \<and> v \<noteq> sentinel \<and>
                                    map_of (others ! i) k = Some v) (e # w)))"
    by (rule counted_cong [OF c2]) (auto simp: e)
  then show ?case by (simp add: e step rest)
qed

lemma count_words_counted:
  assumes "n + length words \<le> length others" and "counted scores totals a m"
  shows "\<exists>scores' totals'.
     fold_err (\<lambda>st (i, word_tags). fold_err (count_entry sentinel others i) st word_tags)
       (scores, totals) (enumerate n words) = Inr (scores', totals') \<and>
     counted scores' totals'
       (\<lambda>k. a k + n_entries sentinel k words)
       (\<lambda>k. m k + n_matching sentinel k words (drop n others))"
  using assms
proof (induction words arbitrary: n scores totals a m)
  case Nil
  then show ?case by (simp add: n_entries_def n_matching_def)
next
  case (Cons w words)
  from Cons.prems(1) have n: "n < length others" and n': "Suc n + length words \<le> length others"
    by simp_all
  from count_word_counted [OF n Cons.prems(2), of sentinel w]
  obtain s1 t1 where
    step: "fold_err (count_entry sentinel others n) (scores, totals) w = Inr (s1, t1)" and
    c1: "counted s1 t1
       (\<lambda>k. a k + length (filter (\<lambda>(k', v). k' = k \<and> v \<noteq> sentinel) w))
       (\<lambda>k. m k + length (filter (\<lambda>(k', v). k' = k \<and> v \<noteq> sentinel \<and>
                                    map_of (others ! n) k = Some v) w))"
    by blast
  from Cons.IH [OF n' c1] obtain s2 t2 where
    rest: "fold_err (\<lambda>st (i, word_tags). fold_err (count_entry sentinel others i) st word_tags)
       (s1, t1) (enumerate (Suc n) words) = Inr (s2, t2)" and
    c2: "counted s2 t2
       (\<lambda>k. a k + length (filter (\<lambda>(k', v). k' = k \<and> v \<noteq> sentinel) w)
              + n_entries sentinel k words)
       (\<lambda>k. m k + length (filter (\<lambda>(k', v). k' = k \<and> v \<noteq> sentinel \<and>
                                    map_of (others ! n) k = Some v) w)
              + n_matching sentinel k words (drop (Suc n) others))"
    by blast
  have dr: "drop n others = others ! n # drop (Suc n) others"
    using n by (simp add: Cons_nth_drop_Suc)
  have "counted s2 t2
       (\<lambda>k. a k + n_entries sentinel k (w # words))
       (\<lambda>k. m k + n_matching sentinel k (w # words) (drop n others))"
    by (rule counted_cong [OF c2]) (simp_all add: n_entries_def n_matching_def dr)
  then show ?case by (simp add: step rest)
qed

lemma count_loop_counted:
  assumes "length words \<le> length others"
  shows "\<exists>scores totals.
     count_loop sentinel words others = Inr (scores, totals) \<and>
     counted scores totals (\<lambda>k. n_entries sentinel k words)
       (\<lambda>k. n_matching sentinel k words others)"
proof -
  have "counted [] [] (\<lambda>k. 0) (\<lambda>k. 0)" by (simp add: counted_def)
  moreover have "0 + length words \<le> length others" using assms by simp
  ultimately show ?thesis
    using count_words_counted [of 0 words others "[]" "[]" "\<lambda>k. 0" "\<lambda>k. 0" sentinel]
    by (simp add: count_loop_def)
qed

lemma counted_entry:
  assumes "counted scores totals a m" and "(k, s) \<in> set scores"
  shows "a k \<noteq> 0 \<and> s = m k \<and> map_of totals k = Some (a k)"
proof -
  from assms(1) have "distinct (map fst scores)" by (simp add: counted_def)
  with assms(2) have "map_of scores k = Some s" by simp
  moreover from assms(1) have "map_of scores k = (if a k = 0 then None else Some (m k))"
    and "map_of totals k = (if a k = 0 then None else Some (a k))"
    by (simp_all add: counted_def)
  ultimately show ?thesis by (auto split: if_splits)
qed

lemma divide_scores_fold:
  assumes "\<And>k s. (k, s) \<in> set xs \<Longrightarrow> a k \<noteq> 0 \<and> map_of totals k = Some (a k)"
  shows "fold_err (\<lambda>acc (k, s).
           case map_of totals k of None \<Rightarrow> Inl KeyError
           | Some t \<Rightarrow> (case py_div (real s) (real t) of Inl e \<Rightarrow> Inl e
                        | Inr q \<Rightarrow> Inr (acc @ [(k, q)])))
         acc xs = Inr (acc @ map (\<lambda>(k, s). (k, real s / real (a k))) xs)"
  using assms
proof (induction xs arbitrary: acc)
  case Nil
  show ?case by simp
next
  case (Cons x xs)
  obtain k s where x: "x = (k, s)" by (cases x)
  from Cons.prems [of k s] have "a k \<noteq> 0" and "map_of totals k = Some (a k)"
    by (simp_all add: x)
  moreover have "fold_err (\<lambda>acc (k, s).
           case map_of totals k of None \<Rightarrow> Inl KeyError
           | Some t \<Rightarrow> (case py_div (real s) (real t) of Inl e \<Rightarrow> Inl e
                        | Inr q \<Rightarrow> Inr (acc @ [(k, q)])))
         (acc @ [(k, real s / real (a k))]) xs =
       Inr ((acc @ [(k, real s / real (a k))]) @ map (\<lambda>(k, s). (k, real s / real (a k))) xs)"
  proof (rule Cons.IH)
    fix k' s' assume "(k', s') \<in> set xs"
    then have "(k', s') \<in> set (x # xs)" by simp
    then show "a k' \<noteq> 0 \<and> map_of totals k' = Some (a k')" by (rule Cons.prems)
  qed
  ultimately show ?case by (simp add: x py_div_def)
qed

lemma map_of_keyed_map:
  "map_of (map (\<lambda>(k, s). (k, g k s)) xs) k = map_option (g k) (map_of xs k)"
  by (induction xs) auto

lemma divide_scores_counted:
  assumes "counted scores totals a m"
  shows "\<exists>precision. divide_scores scores totals = Inr precision \<and>
     (\<forall>k. map_of precision k = (if a k = 0 then None else Some (real (m k) / real (a k))))"
proof -
  have "divide_scores scores totals = Inr ([] @ map (\<lambda>(k, s). (k, real s / real (a k))) scores)"
    unfolding divide_scores_def
    by (rule divide_scores_fold) (use counted_entry [OF assms] in blast)
  moreover have "map_of (map (\<lambda>(k, s). (k, real s / real (a k))) scores) k =
      (if a k = 0 then None else Some (real (m k) / real (a k)))" for k
    using assms by (simp add: map_of_keyed_map counted_def)
  ultimately show ?thesis by simp
qed

lemma f1_entry_value:
  assumes prec: "map_of precision k = (if ap = 0 then None else Some p)" and p: "0 \<le> p"
    and rt: "map_of recall_total k = Some t" and t: "t \<noteq> 0"
  shows "f1_entry precision recall_total (f1_scores, f1_average) (k, s) =
     Inr (AList.update k (if real s / real t = 0 \<or> ap = 0 then 0
                          else harmonic_mean p (real s / real t)) f1_scores,
          f1_average + real t * (if real s / real t = 0 \<or> ap = 0 then 0
                          else harmonic_mean p (real s / real t)))"
proof (cases "real s / real t = 0 \<or> ap = 0")
  case True
  then show ?thesis using prec rt t by (auto simp: f1_entry_def py_div_def)
next
  case False
  then have r: "real s / real t \<noteq> 0" and ap: "ap \<noteq> 0" by simp_all
  have "0 \<le> real s / real t" by simp
  with r have "0 < real s / real t" by linarith
  with p have "p + real s / real t \<noteq> 0" by linarith
  then show ?thesis
    using r ap prec rt t by (simp add: f1_entry_def py_div_def harmonic_mean_def)
qed

lemma f1_fold:
  fixes ap ar mr :: "string \<Rightarrow> nat" and P :: "string \<Rightarrow> real"
  defines "F \<equiv> \<lambda>k. if real (mr k) / real (ar k) = 0 \<or> ap k = 0 then 0
                     else harmonic_mean (P k) (real (mr k) / real (ar k))"
  assumes prec: "\<And>k. map_of precision k = (if ap k = 0 then None else Some (P k))"
    and P: "\<And>k. 0 \<le> P k"
    and ent: "\<And>k s. (k, s) \<in> set xs \<Longrightarrow> ar k \<noteq> 0 \<and> s = mr k \<and> map_of rt k = Some (ar k)"
  shows "\<exists>f1s' avg'. fold_err (f1_entry precision rt) (f1s, avg) xs = Inr (f1s', avg') \<and>
     (\<forall>k. map_of f1s' k = (if k \<in> fst ` set xs then Some (F k) else map_of f1s k)) \<and>
     avg' = avg + (\<Sum>(k, s)\<leftarrow>xs. real (ar k) * F k)"
  using ent
proof (induction xs arbitrary: f1s avg)
  case Nil
  show ?case by simp
next
  case (Cons x xs)
  obtain k s where x: "x = (k, s)" by (cases x)
  from Cons.prems [of k s] have ar: "ar k \<noteq> 0" and s: "s = mr k" and rt: "map_of rt k = Some (ar k)"
    by (simp_all add: x)
  have step: "f1_entry precision rt (f1s, avg) (k, s) =
      Inr (AList.update k (F k) f1s, avg + real (ar k) * F k)"
    using f1_entry_value [OF prec P rt ar, of f1s avg s] by (simp add: F_def s)
  have "\<exists>f1s' avg'. fold_err (f1_entry precision rt)
          (AList.update k (F k) f1s, avg + real (ar k) * F k) xs = Inr (f1s', avg') \<and>
     (\<forall>k'. map_of f1s' k' = (if k' \<in> fst ` set xs then Some (F k')
                              else map_of (AList.update k (F k) f1s) k')) \<and>
     avg' = avg + real (ar k) * F k + (\<Sum>(k, s)\<leftarrow>xs. real (ar k) * F k)"
  proof (rule Cons.IH)
    fix k' s' assume "(k', s') \<in> set xs"
    then have "(k', s') \<in> set (x # xs)" by simp
    then show "ar k' \<noteq> 0 \<and> s' = mr k' \<and> map_of rt k' = Some (ar k')" by (rule Cons.prems)
  qed
  then obtain f1s' avg' where
    r: "fold_err (f1_entry precision rt)
          (AList.update k (F k) f1s, avg + real (ar k) * F k) xs = Inr (f1s', avg')" and
    m: "\<And>k'. map_of f1s' k' = (if k' \<in> fst ` set xs then Some (F k')
                              else map_of (AList.update k (F k) f1s) k')" and
    a: "avg' = avg + real (ar k) * F k + (\<Sum>(k, s)\<leftarrow>xs. real (ar k) * F k)"
    by blast
  have "fold_err (f1_entry precision rt) (f1s, avg) (x # xs) = Inr (f1s', avg')"
    by (simp add: x step r)
  moreover have "map_of f1s' k' = (if k' \<in> fst ` set (x # xs) then Some (F k') else map_of f1s k')"
    for k'
    by (simp add: m x AList.update_conv')
  moreover have "avg' = avg + (\<Sum>(k, s)\<leftarrow>x # xs. real (ar k) * F k)"
    by (simp add: a x)
  ultimately show ?case by blast
qed

subsection \<open>C7: per-tag precision, recall and F1\<close>

text \<open>
  C7: for parallel lists of predicted and gold tag sets the loops of \<open>computeF1\<close> end
  without an exception, and the dictionaries they leave are these. A tag has a precision
  entry iff some prediction for it has a value other than \<^verbatim>\<open>"NULL"\<close>, and the entry is
  the number of such predictions that match gold over their number. A tag has a recall
  entry iff some gold item for it has a value other than \<^verbatim>\<open>"_"\<close>, with the matching
  count and the total count of such items. The F1 of a tag with a recall entry is 0 when
  its recall is 0 or it has no precision entry, and the harmonic mean of its precision and
  recall otherwise. \<open>computeF1\<close> returns what the four divisions give from these values.
\<close>

theorem computeF1_per_tag_scores:
  assumes len: "length golds = length hyps"
  shows "\<exists>ps pt precision rs rt f1_scores f1_sum.
     count_loop ''NULL'' hyps golds = Inr (ps, pt) \<and>
     divide_scores ps pt = Inr precision \<and>
     count_loop ''_'' golds hyps = Inr (rs, rt) \<and>
     f1_loop precision rs rt = Inr (f1_scores, f1_sum) \<and>
     (\<forall>k. map_of precision k =
        (if n_entries ''NULL'' k hyps = 0 then None else Some (tag_precision k hyps golds))) \<and>
     (\<forall>k. map_of rt k =
        (if n_entries ''_'' k golds = 0 then None else Some (n_entries ''_'' k golds)) \<and>
          map_of rs k =
        (if n_entries ''_'' k golds = 0 then None else Some (n_matching ''_'' k golds hyps))) \<and>
     (\<forall>k. map_of f1_scores k =
        (if n_entries ''_'' k golds = 0 then None else Some (tag_f1 k hyps golds))) \<and>
     computeF1 hyps golds =
       (case py_div (sum_values ps) (sum_values pt) of Inl e \<Rightarrow> Inl e
        | Inr f1_micro_precision \<Rightarrow>
       (case py_div (sum_values rs) (sum_values rt) of Inl e \<Rightarrow> Inl e
        | Inr f1_micro_recall \<Rightarrow>
       (case py_div f1_sum (sum_values rt) of Inl e \<Rightarrow> Inl e
        | Inr f1_average \<Rightarrow>
       (case py_div (2 * (f1_micro_precision * f1_micro_recall))
                    (f1_micro_precision + f1_micro_recall) of Inl e \<Rightarrow> Inl e
        | Inr f1_micro_score \<Rightarrow> Inr (f1_average, f1_micro_score)))))"
proof -
  let ?ap = "\<lambda>k. n_entries ''NULL'' k hyps" and ?mp = "\<lambda>k. n_matching ''NULL'' k hyps golds"
  let ?ar = "\<lambda>k. n_entries ''_'' k golds" and ?mr = "\<lambda>k. n_matching ''_'' k golds hyps"
  from count_loop_counted [of hyps golds "''NULL''"] len
  obtain ps pt where p: "count_loop ''NULL'' hyps golds = Inr (ps, pt)"
    and cp: "counted ps pt ?ap ?mp" by auto
  from divide_scores_counted [OF cp]
  obtain precision where d: "divide_scores ps pt = Inr precision"
    and prec: "\<And>k. map_of precision k = (if ?ap k = 0 then None else Some (tag_precision k hyps golds))"
    by (auto simp: tag_precision_def)
  from count_loop_counted [of golds hyps "''_''"] len
  obtain rs rt where r: "count_loop ''_'' golds hyps = Inr (rs, rt)"
    and cr: "counted rs rt ?ar ?mr" by auto
  have ent: "\<And>k s. (k, s) \<in> set rs \<Longrightarrow> ?ar k \<noteq> 0 \<and> s = ?mr k \<and> map_of rt k = Some (?ar k)"
    by (rule counted_entry [OF cr])
  have P: "\<And>k. 0 \<le> tag_precision k hyps golds" by (simp add: tag_precision_def)
  from f1_fold [of precision ?ap "\<lambda>k. tag_precision k hyps golds" rs ?ar ?mr rt "[]" 0, OF prec P ent]
  obtain f1s f1_sum where f: "f1_loop precision rs rt = Inr (f1s, f1_sum)"
    and fm: "\<And>k. map_of f1s k = (if k \<in> fst ` set rs then Some (tag_f1 k hyps golds) else None)"
    by (auto simp: f1_loop_def tag_f1_def tag_recall_def)
  have rr0: "map_of rs k = (if ?ar k = 0 then None else Some (?mr k))" for k
    using cr by (simp add: counted_def)
  have keys: "k \<in> fst ` set rs \<longleftrightarrow> ?ar k \<noteq> 0" for k
  proof -
    have "k \<in> fst ` set rs \<longleftrightarrow> map_of rs k \<noteq> None" by (simp add: map_of_eq_None_iff)
    also have "\<dots> \<longleftrightarrow> ?ar k \<noteq> 0" by (simp add: rr0)
    finally show ?thesis .
  qed
  have rr: "map_of rt k = (if ?ar k = 0 then None else Some (?ar k)) \<and>
            map_of rs k = (if ?ar k = 0 then None else Some (?mr k))" for k
    using cr by (simp add: counted_def)
  have ff: "map_of f1s k = (if ?ar k = 0 then None else Some (tag_f1 k hyps golds))" for k
    by (simp add: fm keys)
  have c: "computeF1 hyps golds =
       (case py_div (sum_values ps) (sum_values pt) of Inl e \<Rightarrow> Inl e
        | Inr f1_micro_precision \<Rightarrow>
       (case py_div (sum_values rs) (sum_values rt) of Inl e \<Rightarrow> Inl e
        | Inr f1_micro_recall \<Rightarrow>
       (case py_div f1_sum (sum_values rt) of Inl e \<Rightarrow> Inl e
        | Inr f1_average \<Rightarrow>
       (case py_div (2 * (f1_micro_precision * f1_micro_recall))
                    (f1_micro_precision + f1_micro_recall) of Inl e \<Rightarrow> Inl e
        | Inr f1_micro_score \<Rightarrow> Inr (f1_average, f1_micro_score)))))"
    by (simp add: computeF1_def p d r f split: sum.splits)
  from p d r f prec rr ff c show ?thesis by blast
qed

theorem computeF1_per_tag_scores_witness:
  "length [[(''POS'', ''NOUN''), (''Case'', ''Nom'')]] = length [[(''POS'', ''NOUN''), (''Case'', ''Acc'')]] \<and>
   tag_f1 ''POS'' [[(''POS'', ''NOUN''), (''Case'', ''Acc'')]] [[(''POS'', ''NOUN''), (''Case'', ''Nom'')]] = 1 \<and>
   tag_f1 ''Case'' [[(''POS'', ''NOUN''), (''Case'', ''Acc'')]] [[(''POS'', ''NOUN''), (''Case'', ''Nom'')]] = 0 \<and>
   computeF1 [[(''POS'', ''NOUN''), (''Case'', ''Acc'')]] [[(''POS'', ''NOUN''), (''Case'', ''Nom'')]]
     = Inr (1 / 2, 1 / 2)"
proof -
  let ?H = "[[(''POS'', ''NOUN''), (''Case'', ''Acc'')]]"
  let ?G = "[[(''POS'', ''NOUN''), (''Case'', ''Nom'')]]"
  have len: "length ?G = length ?H" by simp
  have p: "count_loop ''NULL'' ?H ?G = Inr ([(''POS'', 1), (''Case'', 0)], [(''POS'', 1), (''Case'', 1)])"
    by code_simp
  have d: "divide_scores [(''POS'', 1), (''Case'', 0)] [(''POS'', 1), (''Case'', 1)]
             = Inr [(''POS'', 1), (''Case'', 0)]"
    by code_simp
  have r: "count_loop ''_'' ?G ?H = Inr ([(''POS'', 1), (''Case'', 0)], [(''POS'', 1), (''Case'', 1)])"
    by code_simp
  have f: "f1_loop [(''POS'', 1), (''Case'', 0)] [(''POS'', 1), (''Case'', 0)] [(''POS'', 1), (''Case'', 1)]
             = Inr ([(''POS'', 1), (''Case'', 0)], 1)"
    by code_simp
  have c: "computeF1 ?H ?G = Inr (1 / 2, 1 / 2)" by code_simp
  from computeF1_per_tag_scores [OF len]
  obtain ps pt precision rs rt f1_scores f1_sum where
    "count_loop ''NULL'' ?H ?G = Inr (ps, pt)" "divide_scores ps pt = Inr precision"
    "count_loop ''_'' ?G ?H = Inr (rs, rt)" "f1_loop precision rs rt = Inr (f1_scores, f1_sum)"
    and m: "\<And>k. map_of f1_scores k =
        (if n_entries ''_'' k ?G = 0 then None else Some (tag_f1 k ?H ?G))"
    by blast
  with p d r f have "f1_scores = [(''POS'', 1), (''Case'', 0)]" by simp
  with m have "\<And>k. map_of [(''POS'', 1), (''Case'', 0)] k =
        (if n_entries ''_'' k ?G = 0 then None else Some (tag_f1 k ?H ?G))" by simp
  from this [of "''POS''"] this [of "''Case''"]
  have "tag_f1 ''POS'' ?H ?G = 1" and "tag_f1 ''Case'' ?H ?G = 0"
    by (simp_all split: if_splits)
  with len c show ?thesis by blast
qed

subsection \<open>C8: the divisions are not guarded\<close>

text \<open>
  C8: \<open>computeF1\<close> reaches a division by zero on valid input. With every predicted
  value \<^verbatim>\<open>"NULL"\<close> the micro precision divides 0 by 0; with a shared tag and no matching
  value, micro precision and micro recall are both 0 and the micro F1 divides by their sum.
\<close>

theorem computeF1_zero_division:
  "computeF1 [[(''POS'', ''NULL'')]] [[(''POS'', ''NOUN'')]] = Inl ZeroDivisionError \<and>
   computeF1 [[(''Case'', ''Acc'')]] [[(''Case'', ''Nom'')]] = Inl ZeroDivisionError"
  by code_simp

section \<open>Properties of the frozen tag sets\<close>

lemma freeze_dict_Dict:
  "freeze_dict (Dict obj) = Tuple (map (\<lambda>(k, v). Tuple [k, freeze_dict v]) obj
            @ [Tuple [Str FROZEN_TAG, PBool True]])"
  by simp

lemma update_absent: "k \<notin> fst ` set al \<Longrightarrow> AList.update k v al = al @ [(k, v)]"
  by (induction al) auto

lemma delete_last: "k \<notin> fst ` set al \<Longrightarrow> AList.delete k (al @ [(k, v)]) = al"
  by (induction al) (auto simp: AList.delete_eq)

lemma unfreeze_items:
  fixes step
  defines "step \<equiv> \<lambda>out x.
                  case unpack2 x of Inl e \<Rightarrow> Inl e
                  | Inr (k, v) \<Rightarrow>
                     (case unfreeze_dict v of Inl e \<Rightarrow> Inl e
                      | Inr v' \<Rightarrow> if hashable k then Inr (AList.update k v' out)
                                   else Inl TypeError)"
  assumes "distinct (map fst kvs)" and "fst ` set kvs \<inter> fst ` set out = {}"
    and "\<And>k v. (k, v) \<in> set kvs \<Longrightarrow> hashable k \<and> unfreeze_dict (freeze_dict v) = Inr v"
  shows "fold_err step out (map (\<lambda>(k, v). Tuple [k, freeze_dict v]) kvs) = Inr (out @ kvs)"
  using assms(2-)
proof (induction kvs arbitrary: out)
  case Nil
  show ?case by simp
next
  case (Cons p kvs)
  obtain k v where p: "p = (k, v)" by (cases p)
  from Cons.prems(3) [of k v] have h: "hashable k" and u: "unfreeze_dict (freeze_dict v) = Inr v"
    by (simp_all add: p)
  from Cons.prems(2) have k: "k \<notin> fst ` set out" by (auto simp: p)
  have one: "step out (Tuple [k, freeze_dict v]) = Inr (out @ [(k, v)])"
    by (simp add: step_def h u update_absent [OF k])
  have "fold_err step (out @ [(k, v)]) (map (\<lambda>(k, v). Tuple [k, freeze_dict v]) kvs)
          = Inr ((out @ [(k, v)]) @ kvs)"
  proof (rule Cons.IH)
    show "distinct (map fst kvs)" using Cons.prems(1) by simp
    show "fst ` set kvs \<inter> fst ` set (out @ [(k, v)]) = {}"
      using Cons.prems(1,2) by (auto simp: p)
    fix k' v' assume "(k', v') \<in> set kvs"
    then have "(k', v') \<in> set (p # kvs)" by simp
    then show "hashable k' \<and> unfreeze_dict (freeze_dict v') = Inr v'" by (rule Cons.prems(3))
  qed
  then show ?case by (simp add: p one)
qed

subsection \<open>C4: unfreezing a frozen mapping gives the mapping back\<close>

text \<open>
  C4, as stated, for every mapping with string keys: the mapping \<^verbatim>\<open>{"__frozen__": "x"}\<close>
  refutes it. Its frozen form holds the key twice, the marker's value replaces \<^verbatim>\<open>"x"\<close>
  when the dictionary is rebuilt, and deleting the marker's key leaves the empty mapping.
\<close>

theorem freeze_reserved_key_counterexample:
  "str_map (Dict [(Str ''__frozen__'', Str ''x'')]) \<and>
   unfreeze_dict (freeze_dict (Dict [(Str ''__frozen__'', Str ''x'')])) = Inr (Dict [])"
  by (simp add: FROZEN_TAG_def AList.delete_eq)

text \<open>
  C4, amended: for every finite mapping whose keys are strings other than the reserved
  \<^verbatim>\<open>"__frozen__"\<close> and whose values are strings or nested such mappings, the empty mapping
  included, \<open>unfreeze_dict (freeze_dict m)\<close> returns \<open>m\<close>, with its items in their order.
\<close>

theorem unfreeze_freeze_round_trip:
  "str_map m \<Longrightarrow> frozen_free m \<Longrightarrow> unfreeze_dict (freeze_dict m) = Inr m"
proof (induction m rule: freeze_dict.induct)
  case (1 obj)
  define step where "step = (\<lambda>out x.
                  case unpack2 x of Inl e \<Rightarrow> Inl e
                  | Inr (k, v) \<Rightarrow>
                     (case unfreeze_dict v of Inl e \<Rightarrow> Inl e
                      | Inr v' \<Rightarrow> if hashable k then Inr (AList.update k v' out)
                                   else Inl TypeError))"
  let ?marker = "Tuple [Str FROZEN_TAG, PBool True]"
  let ?frozen = "map (\<lambda>(k, v). Tuple [k, freeze_dict v]) obj"
  have is_str_ex: "\<exists>s. x = Str s" if "is_str x" for x using that by (cases x) simp_all
  from "1.prems" have dist: "distinct (map fst obj)"
    and sm: "\<And>k v. (k, v) \<in> set obj \<Longrightarrow> is_str k \<and> (is_str v \<or> str_map v)"
    and ff: "\<And>k v. (k, v) \<in> set obj \<Longrightarrow> k \<noteq> Str FROZEN_TAG \<and> frozen_free v"
    by (auto simp: list_all_iff)
  have keys: "(\<exists>s. k = Str s) \<and> k \<noteq> Str FROZEN_TAG" if "(k, v) \<in> set obj" for k v
    using sm [OF that] ff [OF that] is_str_ex by blast
  have vals: "(\<exists>s. v = Str s) \<or> (str_map v \<and> frozen_free v)" if "(k, v) \<in> set obj" for k v
    using sm [OF that] ff [OF that] is_str_ex by blast
  have item: "hashable k \<and> unfreeze_dict (freeze_dict v) = Inr v" if kv: "(k, v) \<in> set obj" for k v
  proof
    from keys [OF kv] show "hashable k" by auto
    from vals [OF kv] show "unfreeze_dict (freeze_dict v) = Inr v"
    proof
      assume "\<exists>s. v = Str s"
      then show ?thesis by auto
    next
      assume "str_map v \<and> frozen_free v"
      moreover have "(k, v) \<in> set (obj @ [(Str FROZEN_TAG, PBool True)])" using kv by simp
      ultimately show ?thesis using "1.IH" [OF refl _ refl] by blast
    qed
  qed
  have "fold_err step [] ?frozen = Inr ([] @ obj)"
    unfolding step_def by (rule unfreeze_items [OF dist]) (simp_all add: item)
  moreover have "fold_err step s (xs @ [x]) =
      (case fold_err step s xs of Inl e \<Rightarrow> Inl e | Inr s' \<Rightarrow> step s' x)" for s xs x
    by (induction xs arbitrary: s) (auto split: sum.splits)
  moreover have "Str FROZEN_TAG \<notin> fst ` set obj" using keys by force
  then have "step obj ?marker = Inr (obj @ [(Str FROZEN_TAG, PBool True)])"
    by (simp add: step_def update_absent)
  ultimately have f: "fold_err step [] (?frozen @ [?marker]) = Inr (obj @ [(Str FROZEN_TAG, PBool True)])"
    by simp
  have d: "AList.delete (Str FROZEN_TAG) (obj @ [(Str FROZEN_TAG, PBool True)]) = obj"
    using \<open>Str FROZEN_TAG \<notin> fst ` set obj\<close> by (rule delete_last)
  have "unfreeze_dict (Tuple (?frozen @ [?marker])) = Inr (Dict obj)"
    by (simp add: step_def [symmetric] f d del: map_append)
  then show ?case by (simp only: freeze_dict_Dict)
qed simp_all

theorem unfreeze_freeze_round_trip_witness:
  "str_map (Dict [(Str ''POS'', Str ''NOUN''), (Str ''Feats'', Dict [(Str ''Case'', Str ''Nom'')]),
                  (Str ''Misc'', Dict [])]) \<and>
   frozen_free (Dict [(Str ''POS'', Str ''NOUN''), (Str ''Feats'', Dict [(Str ''Case'', Str ''Nom'')]),
                  (Str ''Misc'', Dict [])]) \<and>
   unfreeze_dict (freeze_dict
     (Dict [(Str ''POS'', Str ''NOUN''), (Str ''Feats'', Dict [(Str ''Case'', Str ''Nom'')]),
            (Str ''Misc'', Dict [])])) =
     Inr (Dict [(Str ''POS'', Str ''NOUN''), (Str ''Feats'', Dict [(Str ''Case'', Str ''Nom'')]),
            (Str ''Misc'', Dict [])]) \<and>
   str_map (Dict []) \<and> frozen_free (Dict []) \<and> unfreeze_dict (freeze_dict (Dict [])) = Inr (Dict [])"
proof -
  let ?m = "Dict [(Str ''POS'', Str ''NOUN''), (Str ''Feats'', Dict [(Str ''Case'', Str ''Nom'')]),
                  (Str ''Misc'', Dict [])]"
  have s: "str_map ?m" by simp
  have f: "frozen_free ?m" by (simp add: FROZEN_TAG_def)
  have s0: "str_map (Dict [])" by simp
  have f0: "frozen_free (Dict [])" by simp
  from s f unfreeze_freeze_round_trip [OF s f] s0 f0 unfreeze_freeze_round_trip [OF s0 f0]
  show ?thesis by (intro conjI)
qed

section \<open>Properties of the log-space matrix product\<close>

lemma ncols_matrix: "matrix r c a \<Longrightarrow> 0 < r \<Longrightarrow> ncols a = c"
  by (cases a) (simp_all add: matrix_def)

lemma ncols_map: "ncols (map (map f) a) = ncols a"
  by (cases a) simp_all

lemma matrix_row: "matrix r c a \<Longrightarrow> row \<in> set a \<Longrightarrow> length row = c"
  by (simp add: matrix_def list_all_iff)

lemma matrix_transpose: "matrix r c a \<Longrightarrow> 0 < r \<Longrightarrow> matrix c r (transpose_m a)"
  by (simp add: transpose_m_def matrix_def list_all_iff ncols_matrix [unfolded matrix_def])

lemma amax_nonempty:
  assumes "matrix r c a" and "0 < r" and "0 < c"
  shows "\<exists>m. amax a = Inr m"
proof -
  obtain row rows where a: "a = row # rows" using assms(1,2) by (cases a) (auto simp: matrix_def)
  with assms(1,3) have "row \<noteq> []" by (auto simp: matrix_def)
  then have "concat a \<noteq> []" by (simp add: a)
  then show ?thesis by (auto simp: amax_def split: list.splits)
qed

lemma shifted_entry:
  fixes row :: "real list" and b :: "real list list"
  assumes "length row = n" and "length b = n" and "0 < n"
    and "\<And>k. k < n \<Longrightarrow> j < length (b ! k)"
  shows "ln (\<Sum>k\<leftarrow>[0..<n]. map (\<lambda>x. exp (x - ma)) row ! k
                              * map (map (\<lambda>x. exp (x - mb))) b ! k ! j) + (ma + mb)
       = ln (\<Sum>k\<leftarrow>[0..<n]. map exp row ! k * map (map exp) b ! k ! j)"
proof -
  let ?S = "\<Sum>k\<leftarrow>[0..<n]. exp (row ! k) * exp (b ! k ! j)"
  have l: "map (\<lambda>k. map (\<lambda>x. exp (x - ma)) row ! k * map (map (\<lambda>x. exp (x - mb))) b ! k ! j) [0..<n]
        = map (\<lambda>k. exp (- (ma + mb)) * (exp (row ! k) * exp (b ! k ! j))) [0..<n]"
    using assms by (intro map_cong refl) (simp add: exp_diff exp_minus exp_add field_simps)
  have r: "map (\<lambda>k. map exp row ! k * map (map exp) b ! k ! j) [0..<n]
        = map (\<lambda>k. exp (row ! k) * exp (b ! k ! j)) [0..<n]"
    using assms by (intro map_cong refl) simp
  have "[0..<n] \<noteq> []" using assms(3) by simp
  then have "map (\<lambda>k. exp (row ! k + b ! k ! j)) [0..<n] \<noteq> []" by simp
  have pos: "0 < ?S"
  proof -
    have "?S = (\<Sum>x\<leftarrow>map (\<lambda>k. row ! k + b ! k ! j) [0..<n]. exp x)"
      by (simp add: comp_def exp_add)
    also have "0 < \<dots>" using assms(3) by (intro sum_exp_pos) simp
    finally show ?thesis .
  qed
  have "(\<Sum>k\<leftarrow>[0..<n]. exp (- (ma + mb)) * (exp (row ! k) * exp (b ! k ! j))) = exp (- (ma + mb)) * ?S"
    by (simp add: sum_list_const_mult)
  then have "ln (\<Sum>k\<leftarrow>[0..<n]. exp (- (ma + mb)) * (exp (row ! k) * exp (b ! k ! j))) = - (ma + mb) + ln ?S"
    using pos by (simp add: ln_mult)
  then show ?thesis by (simp only: l r)
qed

lemma logDot_core:
  assumes a: "matrix r n a" and b: "matrix n c b" and r: "0 < r" and n: "0 < n" and c: "0 < c"
  shows "map (map (\<lambda>x. x + (ma + mb)))
           (map (map ln) (matmul (map (map (\<lambda>x. exp (x - ma))) a) (map (map (\<lambda>x. exp (x - mb))) b)))
         = log_matmul a b"
proof -
  have lb: "length b = n" using b by (simp add: matrix_def)
  have cb: "ncols b = c" using b n by (rule ncols_matrix)
  have rows_b: "j < length (b ! k)" if "k < n" "j < c" for j k
  proof -
    have "b ! k \<in> set b" using that(1) lb by simp
    then have "length (b ! k) = c" using b by (simp add: matrix_row)
    with that(2) show ?thesis by simp
  qed
  have entry: "ln (\<Sum>k\<leftarrow>[0..<n]. map (\<lambda>x. exp (x - ma)) row ! k
                              * map (map (\<lambda>x. exp (x - mb))) b ! k ! j) + (ma + mb)
       = ln (\<Sum>k\<leftarrow>[0..<n]. map exp row ! k * map (map exp) b ! k ! j)"
    if "row \<in> set a" and "j < c" for row j
  proof (rule shifted_entry)
    show "length row = n" using a that(1) by (rule matrix_row)
    show "length b = n" by (rule lb)
    show "0 < n" by (rule n)
    show "\<And>k. k < n \<Longrightarrow> j < length (b ! k)" using that(2) by (simp add: rows_b)
  qed
  show ?thesis
    unfolding log_matmul_def matmul_def
    by (simp add: lb cb ncols_map comp_def entry cong: map_cong)
qed

lemma logDot_plain:
  assumes a: "matrix r n a" and b: "matrix n c b" and r: "0 < r" and n: "0 < n" and c: "0 < c"
    and ax: "redAxis \<noteq> Some 1"
  shows "logDot a b redAxis = Inr (log_matmul a b)"
proof -
  from amax_nonempty [OF a r n] obtain ma where ma: "amax a = Inr ma" ..
  from amax_nonempty [OF b n c] obtain mb where mb: "amax b = Inr mb" ..
  have "ncols (map (map (\<lambda>x. exp (x - ma))) a) = length (map (map (\<lambda>x. exp (x - mb))) b)"
    using ncols_matrix [OF a r] b by (simp add: ncols_map matrix_def)
  then show ?thesis
    using ax by (simp add: logDot_def ma mb dot_def Let_def logDot_core [OF a b r n c] del: map_map)
qed

lemma logDot_axis1:
  assumes a: "matrix r n a" and b: "matrix c n b" and r: "0 < r" and n: "0 < n" and c: "0 < c"
  shows "logDot a b (Some 1) = Inr (transpose_m (log_matmul a (transpose_m b)))"
proof -
  have bt: "matrix n c (transpose_m b)" using b c by (rule matrix_transpose)
  from amax_nonempty [OF a r n] obtain ma where ma: "amax a = Inr ma" ..
  from amax_nonempty [OF bt n c] obtain mb where mb: "amax (transpose_m b) = Inr mb" ..
  have "ncols (map (map (\<lambda>x. exp (x - ma))) a)
          = length (map (map (\<lambda>x. exp (x - mb))) (transpose_m b))"
    using ncols_matrix [OF a r] bt by (simp add: ncols_map matrix_def)
  then show ?thesis
    by (simp add: logDot_def ma mb dot_def Let_def logDot_core [OF a bt r n c] del: map_map)
qed

subsection \<open>C1: logDot is the matrix product in log space\<close>

text \<open>
  C1, as stated, makes the axis flag decide only whether \<open>B\<close> is transposed before the
  product. With \<^verbatim>\<open>redAxis = 1\<close> the code also transposes the result: for a 2 by 1 matrix
  \<open>A\<close> and a 1 by 1 matrix \<open>B\<close> it returns a 1 by 2 matrix where
  \<^verbatim>\<open>log(exp(A) . exp(B.T))\<close> is 2 by 1, and for square matrices the entries change places.
  Arrays without entries are of compatible shapes too, and there \<^verbatim>\<open>np.amax\<close> raises.
\<close>

theorem logDot_axis_counterexample:
  "logDot [[0], [0]] [[0]] (Some 1) = Inr [[0, 0]] \<and>
   log_matmul [[0], [0]] (transpose_m [[0]]) = [[0], [0]] \<and>
   logDot [[0, 0], [ln 2, ln 2]] [[0, 0], [0, 0]] (Some 1) = Inr [[ln 2, ln 4], [ln 2, ln 4]] \<and>
   log_matmul [[0, 0], [ln 2, ln 2]] (transpose_m [[0, 0], [0, 0]]) = [[ln 2, ln 2], [ln 4, ln 4]] \<and>
   ln (2::real) \<noteq> ln 4 \<and>
   logDot [] [] None = Inl ValueError"
proof (intro conjI)
  have t1: "transpose_m [[0::real]] = [[0]]" by (simp add: transpose_m_def)
  show l1: "log_matmul [[0], [0]] (transpose_m [[0]]) = [[0], [0]]"
    by (simp add: t1 log_matmul_def matmul_def)
  have "matrix 2 1 [[0::real], [0]]" "matrix 1 1 [[0::real]]" by (simp_all add: matrix_def)
  then have "logDot [[0], [0]] [[0]] (Some 1) = Inr (transpose_m (log_matmul [[0], [0]] (transpose_m [[0]])))"
    by (rule logDot_axis1) simp_all
  then show "logDot [[0], [0]] [[0]] (Some 1) = Inr [[0, 0]]"
    by (simp add: l1) (simp add: transpose_m_def)
  have t2: "transpose_m [[0::real, 0], [0, 0]] = [[0, 0], [0, 0]]"
    by (simp add: transpose_m_def upt_rec)
  show l2: "log_matmul [[0, 0], [ln 2, ln 2]] (transpose_m [[0, 0], [0, 0]]) = [[ln 2, ln 2], [ln 4, ln 4]]"
    by (simp add: t2 log_matmul_def matmul_def upt_rec)
  have "matrix 2 2 [[0::real, 0], [ln 2, ln 2]]" "matrix 2 2 [[0::real, 0], [0, 0]]"
    by (simp_all add: matrix_def)
  then have "logDot [[0, 0], [ln 2, ln 2]] [[0, 0], [0, 0]] (Some 1)
      = Inr (transpose_m (log_matmul [[0, 0], [ln 2, ln 2]] (transpose_m [[0, 0], [0, 0]])))"
    by (rule logDot_axis1) simp_all
  then show "logDot [[0, 0], [ln 2, ln 2]] [[0, 0], [0, 0]] (Some 1) = Inr [[ln 2, ln 4], [ln 2, ln 4]]"
    by (simp add: l2) (simp add: transpose_m_def upt_rec)
  show "ln (2::real) \<noteq> ln 4" by simp
  show "logDot [] [] None = Inl ValueError" by (simp add: logDot_def amax_def)
qed

text \<open>
  C1, amended: for real matrices with at least one row and one column and of compatible
  shapes, \<open>logDot\<close> with a flag other than 1 returns \<^verbatim>\<open>log(exp(A) . exp(B))\<close>, and with the
  flag 1 it returns the transpose of \<^verbatim>\<open>log(exp(A) . exp(B.T))\<close>: \<open>B\<close> is transposed before
  the product and the result after it. The right-hand sides subtract no maximum: the
  stabilisation does not change the value.
\<close>

theorem logDot_log_space_product:
  assumes "matrix r n a" and "0 < r" and "0 < n" and "0 < c"
  shows "(matrix n c b \<and> redAxis \<noteq> Some 1 \<longrightarrow> logDot a b redAxis = Inr (log_matmul a b)) \<and>
         (matrix c n b \<longrightarrow>
            logDot a b (Some 1) = Inr (transpose_m (log_matmul a (transpose_m b))))"
proof (intro conjI impI)
  assume "matrix n c b \<and> redAxis \<noteq> Some 1"
  then have b: "matrix n c b" and ax: "redAxis \<noteq> Some 1" by simp_all
  from assms(1) b assms(2,3,4) ax show "logDot a b redAxis = Inr (log_matmul a b)"
    by (rule logDot_plain)
next
  assume b: "matrix c n b"
  from assms(1) b assms(2,3,4)
  show "logDot a b (Some 1) = Inr (transpose_m (log_matmul a (transpose_m b)))"
    by (rule logDot_axis1)
qed

theorem logDot_log_space_product_witness:
  "matrix 1 2 [[0::real, 0]] \<and> (0::nat) < 1 \<and> (0::nat) < 2 \<and>
   matrix 2 1 [[0::real], [0]] \<and> None \<noteq> Some (1::int) \<and>
   logDot [[0, 0]] [[0], [0]] None = Inr [[ln 2]] \<and>
   logDot [[0, 0]] [[0, 0]] (Some 1) = Inr [[ln 2]]"
proof -
  have a: "matrix 1 2 [[0::real, 0]]" by (simp add: matrix_def)
  have b: "matrix 2 1 [[0::real], [0]]" by (simp add: matrix_def)
  have r: "(0::nat) < 1" and n: "(0::nat) < 2" by simp_all
  note t = logDot_log_space_product [OF a r n r]
  have t2: "transpose_m [[0::real, 0]] = [[0], [0]]" by (simp add: transpose_m_def upt_rec)
  have v: "log_matmul [[0, 0]] [[0], [0]] = [[ln 2]]"
    by (simp add: log_matmul_def matmul_def upt_rec)
  have "logDot [[0, 0]] [[0], [0]] None = Inr (log_matmul [[0, 0]] [[0], [0]])"
    using t [of "[[0], [0]]" None] b by simp
  then have p: "logDot [[0, 0]] [[0], [0]] None = Inr [[ln 2]]" by (simp only: v)
  have "logDot [[0, 0]] [[0, 0]] (Some 1) = Inr (transpose_m (log_matmul [[0, 0]] (transpose_m [[0, 0]])))"
    using t [of "[[0, 0]]"] a by simp
  then have q: "logDot [[0, 0]] [[0, 0]] (Some 1) = Inr [[ln 2]]"
    by (simp only: t2 v) (simp add: transpose_m_def)
  from a r n b p q show ?thesis by simp
qed

(*THMS*)

end
